theory Spec2Isabelle
  imports Main "HOL-Library.Word" "HOL-Library.Monad_Syntax"
begin

unbundle bit_operations_syntax

section \<open>Signal driver (spi\_bit\_banging\_driver.hpp)\<close>

text \<open>
  \<open>SPIBitBangingDriver\<close> is an abstract class of six pure-virtual operations on the
  four SPI lines and the timing.  An implementation is a record of six functions over
  its own state \<open>'d\<close> (the pins, the world behind them): every operation returns the
  state it leaves, \<open>read_miso\<close> also the level it sampled.
\<close>

type_synonym byte = "8 word"

record 'd driver =
  cs_low :: "'d \<Rightarrow> 'd"
  cs_high :: "'d \<Rightarrow> 'd"
  write_mosi :: "bool \<Rightarrow> 'd \<Rightarrow> 'd"
  read_miso :: "'d \<Rightarrow> bool \<times> 'd"
  pulse_clock :: "'d \<Rightarrow> 'd"
  delay_us :: "nat \<Rightarrow> 'd \<Rightarrow> 'd"

section \<open>Bit-banging helper (spi\_bit\_banging\_helper.hpp)\<close>

text \<open>
  \<open>transferByte\<close>: the loop \<open>for (int bit = 7; bit >= 0; --bit)\<close> with its body.
  \<open>(tx_byte >> bit) & 0x01u\<close> converted to \<open>bool\<close> is the test that bit \<open>bit\<close> is set;
  \<open>static_cast<uint8_t>((rx_byte << 1) | (miso ? 1u : 0u))\<close> is the shift and the
  disjunction on 8-bit words (the cast drops the bit shifted out).
\<close>

function transferByte_loop :: "'d driver \<Rightarrow> byte \<Rightarrow> int \<Rightarrow> byte \<Rightarrow> 'd \<Rightarrow> byte \<times> 'd" where
  "transferByte_loop drv tx_byte b rx_byte d =
     (if b \<ge> 0 then
        let mosi_value = (drop_bit (nat b) tx_byte AND 1 \<noteq> 0);
            d1 = write_mosi drv mosi_value d;
            d2 = pulse_clock drv d1;
            (miso_value, d3) = read_miso drv d2;
            rx_byte' = push_bit 1 rx_byte OR (if miso_value then 1 else 0)
        in transferByte_loop drv tx_byte (b - 1) rx_byte' d3
      else (rx_byte, d))"
  by pat_completeness auto
termination
  by (relation "measure (\<lambda>(drv, tx_byte, b, rx_byte, d). nat (b + 1))") auto

declare transferByte_loop.simps [simp del]

definition transferByte :: "'d driver \<Rightarrow> byte \<Rightarrow> 'd \<Rightarrow> byte \<times> 'd" where
  "transferByte drv tx_byte d = transferByte_loop drv tx_byte 7 0 d"

section \<open>EEPROM command layer (eeprom\_25lc040a.hpp and its implementation)\<close>

text \<open>
  \<open>std::size_t\<close> is an unsigned type of at least 16 bits whose width the sources do not
  fix.  Addresses, offsets and lengths are natural numbers here: the code only ever
  adds to them, and it observes an address through \<open>address % PAGE_SIZE\<close>,
  \<open>(address >> 8) & 0xFF\<close> and \<open>address & 0xFF\<close> alone, which read the low 16 bits
  and so agree with any wrap-around at a width of 16 bits or more
  (lemma \<open>address_bytes_wrap\<close> below).
  \<open>unsigned\<close> and \<open>uint32_t\<close> are 32-bit words, \<open>uint8_t\<close> is an 8-bit word.
\<close>

type_synonym size_t = nat
type_synonym u32 = "32 word"

definition CAPACITY_BYTES :: size_t where
  "CAPACITY_BYTES = 512"

definition PAGE_SIZE :: size_t where
  "PAGE_SIZE = 16"

datatype Opcode = READ | WRITE | WREN | RDSR

text \<open>The enumerators' values, that is \<open>static_cast<uint8_t>(Opcode::...)\<close>.\<close>

fun opcode_byte :: "Opcode \<Rightarrow> byte" where
  "opcode_byte READ = 0x03"
| "opcode_byte WRITE = 0x02"
| "opcode_byte WREN = 0x06"
| "opcode_byte RDSR = 0x05"

text \<open>\<open>static_cast<uint8_t>((address >> 8) & 0xFF)\<close> and \<open>static_cast<uint8_t>(address & 0xFF)\<close>.\<close>

definition address_high :: "size_t \<Rightarrow> byte" where
  "address_high address = of_nat (drop_bit 8 address AND 0xFF)"

definition address_low :: "size_t \<Rightarrow> byte" where
  "address_low address = of_nat (address AND 0xFF)"

definition readByte :: "'d driver \<Rightarrow> size_t \<Rightarrow> 'd \<Rightarrow> byte \<times> 'd" where
  "readByte drv address d =
     (let d1 = cs_low drv d;
          (r0, d2) = transferByte drv (opcode_byte READ) d1;
          (r1, d3) = transferByte drv (address_high address) d2;
          (r2, d4) = transferByte drv (address_low address) d3;
          (val, d5) = transferByte drv 0xFF d4;
          d6 = cs_high drv d5
      in (val, d6))"

definition writeEnable :: "'d driver \<Rightarrow> 'd \<Rightarrow> 'd" where
  "writeEnable drv d =
     (let d1 = cs_low drv d;
          (r0, d2) = transferByte drv (opcode_byte WREN) d1
      in cs_high drv d2)"

definition readStatus :: "'d driver \<Rightarrow> 'd \<Rightarrow> byte \<times> 'd" where
  "readStatus drv d =
     (let d1 = cs_low drv d;
          (r0, d2) = transferByte drv (opcode_byte RDSR) d1;
          (status, d3) = transferByte drv 0xFF d2;
          d4 = cs_high drv d3
      in (status, d4))"

definition WIP_MASK :: byte where
  "WIP_MASK = 0x01"

text \<open>
  \<open>while (true)\<close> with a single \<open>break\<close>: nothing bounds the number of polls, so the
  result is an option and \<open>None\<close> is the call that never returns.
\<close>

partial_function (option) waitUntilWriteComplete :: "'d driver \<Rightarrow> 'd \<Rightarrow> 'd option" where
  "waitUntilWriteComplete drv d =
     (case readStatus drv d of (status, d1) \<Rightarrow>
        if status AND WIP_MASK = 0 then Some d1
        else waitUntilWriteComplete drv (delay_us drv 10 d1))"

declare waitUntilWriteComplete.simps [code]

definition writeByte :: "'d driver \<Rightarrow> size_t \<Rightarrow> byte \<Rightarrow> 'd \<Rightarrow> 'd option" where
  "writeByte drv address val d =
     (let d1 = writeEnable drv d;
          d2 = cs_low drv d1;
          (r0, d3) = transferByte drv (opcode_byte WRITE) d2;
          (r1, d4) = transferByte drv (address_high address) d3;
          (r2, d5) = transferByte drv (address_low address) d4;
          (r3, d6) = transferByte drv val d5;
          d7 = cs_high drv d6
      in waitUntilWriteComplete drv d7)"

text \<open>
  A buffer argument is a pointer: \<open>None\<close> is \<open>nullptr\<close>, \<open>Some f\<close> points at memory
  whose cell \<open>i\<close> holds \<open>f i\<close>.  \<open>readArray\<close> returns the buffer as it leaves it.
\<close>

type_synonym buffer = "(size_t \<Rightarrow> byte) option"

function readArray_loop :: "'d driver \<Rightarrow> (size_t \<Rightarrow> byte) \<Rightarrow> size_t \<Rightarrow> size_t \<Rightarrow> 'd \<Rightarrow> (size_t \<Rightarrow> byte) \<times> 'd" where
  "readArray_loop drv buf i len d =
     (if i < len then
        let (v, d1) = transferByte drv 0xFF d
        in readArray_loop drv (buf(i := v)) (i + 1) len d1
      else (buf, d))"
  by pat_completeness auto
termination
  by (relation "measure (\<lambda>(drv, buf, i, len, d). len - i)") auto

declare readArray_loop.simps [simp del]

definition readArray :: "'d driver \<Rightarrow> size_t \<Rightarrow> buffer \<Rightarrow> size_t \<Rightarrow> 'd \<Rightarrow> buffer \<times> 'd" where
  "readArray drv address buffer len d =
     (case buffer of
        None \<Rightarrow> (buffer, d)
      | Some buf \<Rightarrow>
          if len = 0 then (buffer, d)
          else
            let d1 = cs_low drv d;
                (r0, d2) = transferByte drv (opcode_byte READ) d1;
                (r1, d3) = transferByte drv (address_high address) d2;
                (r2, d4) = transferByte drv (address_low address) d3;
                (buf', d5) = readArray_loop drv buf 0 len d4;
                d6 = cs_high drv d5
            in (Some buf', d6))"

text \<open>The inner loop of \<open>writeArray\<close>: \<open>for (i = 0; i < chunk; ++i) transferByte(buffer[offset + i])\<close>.\<close>

function writeArray_page :: "'d driver \<Rightarrow> (size_t \<Rightarrow> byte) \<Rightarrow> size_t \<Rightarrow> size_t \<Rightarrow> size_t \<Rightarrow> 'd \<Rightarrow> 'd" where
  "writeArray_page drv buf offset i chunk d =
     (if i < chunk then
        let (r, d1) = transferByte drv (buf (offset + i)) d
        in writeArray_page drv buf offset (i + 1) chunk d1
      else d)"
  by pat_completeness auto
termination
  by (relation "measure (\<lambda>(drv, buf, offset, i, chunk, d). chunk - i)") auto

declare writeArray_page.simps [simp del]

text \<open>The outer loop \<open>while (remaining > 0)\<close>; it returns when every wait in it does.\<close>

function writeArray_loop :: "'d driver \<Rightarrow> (size_t \<Rightarrow> byte) \<Rightarrow> size_t \<Rightarrow> size_t \<Rightarrow> size_t \<Rightarrow> 'd \<Rightarrow> 'd option" where
  "writeArray_loop drv buf address offset remaining d =
     (if remaining > 0 then
        let page_offset = address mod PAGE_SIZE;
            bytes_in_page = PAGE_SIZE - page_offset;
            chunk = (if remaining < bytes_in_page then remaining else bytes_in_page);
            d1 = writeEnable drv d;
            d2 = cs_low drv d1;
            (r0, d3) = transferByte drv (opcode_byte WRITE) d2;
            (r1, d4) = transferByte drv (address_high address) d3;
            (r2, d5) = transferByte drv (address_low address) d4;
            d6 = writeArray_page drv buf offset 0 chunk d5;
            d7 = cs_high drv d6
        in case waitUntilWriteComplete drv d7 of
             None \<Rightarrow> None
           | Some d8 \<Rightarrow> writeArray_loop drv buf (address + chunk) (offset + chunk) (remaining - chunk) d8
      else Some d)"
  by pat_completeness auto
termination
  by (relation "measure (\<lambda>(drv, buf, address, offset, remaining, d). remaining)")
     (auto simp: PAGE_SIZE_def)

declare writeArray_loop.simps [simp del]

definition writeArray :: "'d driver \<Rightarrow> size_t \<Rightarrow> buffer \<Rightarrow> size_t \<Rightarrow> 'd \<Rightarrow> 'd option" where
  "writeArray drv address buffer len d =
     (case buffer of
        None \<Rightarrow> Some d
      | Some buf \<Rightarrow> if len = 0 then Some d else writeArray_loop drv buf address 0 len d)"

text \<open>
  The bit operations.  A shift of a 32-bit operand by 32 or more has no defined result
  in C++; the loops can reach one only with \<open>bitOffset > 8\<close>, and the model then stops
  with \<open>Inl Undefined_Shift\<close> instead of inventing a value.  \<open>None\<close> is again the loop
  that never ends.  The arithmetic on \<open>unsigned\<close> wraps as 32-bit words do; \<open>mask\<close> and
  \<open>val\<close> are the truncations to \<open>uint8_t\<close> of the promoted expressions.
\<close>

datatype fault = Undefined_Shift

partial_function (option) readBits_loop ::
  "'d driver \<Rightarrow> u32 \<Rightarrow> u32 \<Rightarrow> u32 \<Rightarrow> u32 \<Rightarrow> size_t \<Rightarrow> 'd \<Rightarrow> (fault + u32 \<times> 'd) option" where
  "readBits_loop drv bitOffset bitCount result bits_read byte_addr d =
     (if bits_read < bitCount then
        case readByte drv byte_addr d of (byte, d1) \<Rightarrow>
          let start_bit = (if bits_read = 0 then bitOffset else 0);
              bits_in_byte = min (8 - start_bit) (bitCount - bits_read)
          in if 32 \<le> start_bit \<or> 32 \<le> bits_in_byte then Some (Inl Undefined_Shift)
             else
               let mask = (ucast (push_bit (unat start_bit) (push_bit (unat bits_in_byte) (1 :: u32) - 1)) :: byte);
                   val = drop_bit (unat start_bit) (byte AND mask);
                   result' = result OR push_bit (unat bits_read) (ucast val :: u32)
               in readBits_loop drv bitOffset bitCount result' (bits_read + bits_in_byte) (byte_addr + 1) d1
      else Some (Inr (result, d)))"

declare readBits_loop.simps [code]

definition readBits :: "'d driver \<Rightarrow> size_t \<Rightarrow> u32 \<Rightarrow> u32 \<Rightarrow> 'd \<Rightarrow> (fault + u32 \<times> 'd) option" where
  "readBits drv address bitOffset bitCount d =
     (if bitCount = 0 \<or> bitCount > 32 then Some (Inr (0, d))
      else readBits_loop drv bitOffset bitCount 0 0 address d)"

partial_function (option) writeBits_loop ::
  "'d driver \<Rightarrow> u32 \<Rightarrow> u32 \<Rightarrow> u32 \<Rightarrow> u32 \<Rightarrow> size_t \<Rightarrow> 'd \<Rightarrow> (fault + 'd) option" where
  "writeBits_loop drv bitOffset bitCount val bits_written byte_addr d =
     (if bits_written < bitCount then
        case readByte drv byte_addr d of (byte, d1) \<Rightarrow>
          let start_bit = (if bits_written = 0 then bitOffset else 0);
              bits_in_byte = min (8 - start_bit) (bitCount - bits_written)
          in if 32 \<le> start_bit \<or> 32 \<le> bits_in_byte then Some (Inl Undefined_Shift)
             else
               let mask = (ucast (push_bit (unat start_bit) (push_bit (unat bits_in_byte) (1 :: u32) - 1)) :: byte);
                   byte' = (ucast ((ucast byte AND NOT (ucast mask)) OR
                                   (push_bit (unat start_bit) (drop_bit (unat bits_written) val) AND ucast mask) :: u32) :: byte)
               in do {
                    d2 \<leftarrow> writeByte drv byte_addr byte' d1;
                    writeBits_loop drv bitOffset bitCount val (bits_written + bits_in_byte) (byte_addr + 1) d2
                  }
      else Some (Inr d))"

declare writeBits_loop.simps [code]

definition writeBits :: "'d driver \<Rightarrow> size_t \<Rightarrow> u32 \<Rightarrow> u32 \<Rightarrow> u32 \<Rightarrow> 'd \<Rightarrow> (fault + 'd) option" where
  "writeBits drv address bitOffset bitCount val d =
     (if bitCount = 0 \<or> bitCount > 32 then Some (Inr d)
      else writeBits_loop drv bitOffset bitCount val 0 address d)"

definition readBit :: "'d driver \<Rightarrow> size_t \<Rightarrow> u32 \<Rightarrow> 'd \<Rightarrow> (fault + bool \<times> 'd) option" where
  "readBit drv address b d =
     map_option (map_sum id (\<lambda>(r, d'). (r \<noteq> 0, d'))) (readBits drv address b 1 d)"

definition writeBit :: "'d driver \<Rightarrow> size_t \<Rightarrow> u32 \<Rightarrow> bool \<Rightarrow> 'd \<Rightarrow> (fault + 'd) option" where
  "writeBit drv address b val d = writeBits drv address b 1 (if val then 1 else 0) d"

section \<open>Public interface as data\<close>

text \<open>
  The public member functions of \<open>EEPROM25LC040A\<close>, to speak of sequences of calls.
  \<open>perform\<close> runs one call and keeps the driver state only; a sequence stops at the
  first call that does not return or that reaches an undefined shift.
\<close>

datatype operation =
    ReadByte size_t
  | WriteByte size_t byte
  | ReadArray size_t buffer size_t
  | WriteArray size_t buffer size_t
  | ReadBit size_t u32
  | WriteBit size_t u32 bool
  | ReadBits size_t u32 u32
  | WriteBits size_t u32 u32 u32

fun perform :: "'d driver \<Rightarrow> operation \<Rightarrow> 'd \<Rightarrow> (fault + 'd) option" where
  "perform drv (ReadByte a) d = Some (Inr (snd (readByte drv a d)))"
| "perform drv (WriteByte a v) d = map_option Inr (writeByte drv a v d)"
| "perform drv (ReadArray a buf n) d = Some (Inr (snd (readArray drv a buf n d)))"
| "perform drv (WriteArray a buf n) d = map_option Inr (writeArray drv a buf n d)"
| "perform drv (ReadBit a b) d = map_option (map_sum id snd) (readBit drv a b d)"
| "perform drv (WriteBit a b v) d = writeBit drv a b v d"
| "perform drv (ReadBits a off n) d = map_option (map_sum id snd) (readBits drv a off n d)"
| "perform drv (WriteBits a off n v) d = writeBits drv a off n v d"

fun perform_all :: "'d driver \<Rightarrow> operation list \<Rightarrow> 'd \<Rightarrow> (fault + 'd) option" where
  "perform_all drv [] d = Some (Inr d)"
| "perform_all drv (opn # ops) d =
     (case perform drv opn d of
        None \<Rightarrow> None
      | Some (Inl f) \<Rightarrow> Some (Inl f)
      | Some (Inr d1) \<Rightarrow> perform_all drv ops d1)"

section \<open>Stub drivers\<close>

text \<open>
  The echo stub of the test plan: the only state is the level last driven on MOSI, and
  MISO reads that level back.
\<close>

definition echo_driver :: "bool driver" where
  "echo_driver = \<lparr> cs_low = (\<lambda>d. d), cs_high = (\<lambda>d. d),
                    write_mosi = (\<lambda>b d. b), read_miso = (\<lambda>d. (d, d)),
                    pulse_clock = (\<lambda>d. d), delay_us = (\<lambda>n d. d) \<rparr>"

text \<open>
  The scripted stub: its state is the queue of levels that MISO will show, one per
  sample; an empty queue reads low.  Nothing else has an effect.
\<close>

definition script_driver :: "bool list driver" where
  "script_driver = \<lparr> cs_low = (\<lambda>q. q), cs_high = (\<lambda>q. q),
                      write_mosi = (\<lambda>b q. q),
                      read_miso = (\<lambda>q. case q of [] \<Rightarrow> (False, []) | m # q' \<Rightarrow> (m, q')),
                      pulse_clock = (\<lambda>q. q), delay_us = (\<lambda>n q. q) \<rparr>"

text \<open>
  The counting stub: it wraps any driver and appends every call made through the
  interface, with its argument or result, to a log.
\<close>

datatype event = CsLow | CsHigh | Mosi bool | Clock | Miso bool | Delay nat

definition traced :: "'d driver \<Rightarrow> (event list \<times> 'd) driver" where
  "traced drv =
     \<lparr> cs_low = (\<lambda>(tr, d). (tr @ [CsLow], cs_low drv d)),
       cs_high = (\<lambda>(tr, d). (tr @ [CsHigh], cs_high drv d)),
       write_mosi = (\<lambda>b (tr, d). (tr @ [Mosi b], write_mosi drv b d)),
       read_miso = (\<lambda>(tr, d). case read_miso drv d of (m, d1) \<Rightarrow> (m, (tr @ [Miso m], d1))),
       pulse_clock = (\<lambda>(tr, d). (tr @ [Clock], pulse_clock drv d)),
       delay_us = (\<lambda>n (tr, d). (tr @ [Delay n], delay_us drv n d)) \<rparr>"

section \<open>Bits on the wire\<close>

text \<open>
  Bits travel most significant first.  \<open>msb_bits\<close> lists the bits of a byte in the order
  of the wire and \<open>byte_of_bits\<close> assembles a byte from bits in that order.
\<close>

definition msb_bits :: "byte \<Rightarrow> bool list" where
  "msb_bits w = map (bit w) (rev [0..<8])"

definition shift_in :: "byte \<Rightarrow> bool \<Rightarrow> byte" where
  "shift_in acc m = push_bit 1 acc OR (if m then 1 else 0)"

definition byte_of_bits :: "bool list \<Rightarrow> byte" where
  "byte_of_bits ms = foldl shift_in 0 ms"

section \<open>The chip\<close>

text \<open>
  Modelled from the spec: the 25LC040A itself, which the repository drives and does not
  contain.  The model is the chip of the specification, seen from the four lines: 512
  byte cells; a command frame of an opcode byte and, for READ and WRITE, a 16-bit
  big-endian address of which the chip keeps the low 9 bits; READ shifts out the
  addressed byte and then the following ones; WREN sets the write-enable latch; WRITE
  is committed when chip select is released, only with the latch set, stays inside the
  16-byte page of its address (the low 4 address bits wrap), clears the latch and starts
  a write cycle; RDSR shifts out the status byte, bit 0 of which is WIP (bit 1 shows
  the latch).  While a write cycle runs the chip answers RDSR only.  A write cycle lasts
  \<open>t_wc\<close> microseconds, and time passes in \<open>delay_us\<close>.

  The chip samples MOSI on each clock pulse while selected and then shows its next
  output bit on MISO, most significant bit first.
\<close>

record chip =
  mem :: "nat \<Rightarrow> byte"
  wel :: bool
  busy :: nat
  t_wc :: nat
  selected :: bool
  mosi_level :: bool
  miso_level :: bool
  shifted :: "bool list"

definition nat_of_bits :: "bool list \<Rightarrow> nat" where
  "nat_of_bits bs = foldl (\<lambda>a b. 2 * a + (if b then 1 else 0)) 0 bs"

fun group_bytes :: "bool list \<Rightarrow> byte list" where
  "group_bytes (a # b # c # d # e # f # g # h # rest) =
     byte_of_bits [a, b, c, d, e, f, g, h] # group_bytes rest"
| "group_bytes _ = []"

definition chip_status :: "chip \<Rightarrow> byte" where
  "chip_status c = (if 0 < busy c then 1 else 0) OR (if wel c then 2 else 0)"

definition chip_address :: "bool list \<Rightarrow> nat" where
  "chip_address bits = nat_of_bits (take 16 (drop 8 bits)) mod 512"

text \<open>The level of MISO once the clock that completed \<open>bits\<close> has passed.\<close>

definition chip_out :: "chip \<Rightarrow> bool list \<Rightarrow> bool" where
  "chip_out c bits =
     (let k = length bits; opc = byte_of_bits (take 8 bits) in
      if k \<le> 8 then False
      else if opc = 0x05 then bit (chip_status c) (7 - (k - 9) mod 8)
      else if opc = 0x03 \<and> busy c = 0 \<and> 24 < k then
        bit (mem c ((chip_address bits + (k - 25) div 8) mod 512)) (7 - (k - 25) mod 8)
      else False)"

fun page_write :: "(nat \<Rightarrow> byte) \<Rightarrow> nat \<Rightarrow> byte list \<Rightarrow> (nat \<Rightarrow> byte)" where
  "page_write m a [] = m"
| "page_write m a (v # vs) = page_write (m(a := v)) (16 * (a div 16) + (a + 1) mod 16) vs"

text \<open>Releasing chip select ends the frame and carries out what it asked for.\<close>

definition chip_release :: "chip \<Rightarrow> chip" where
  "chip_release c =
     (let bits = shifted c; k = length bits; opc = byte_of_bits (take 8 bits);
          c' = c\<lparr>selected := False, shifted := []\<rparr> in
      if \<not> selected c then c
      else if 0 < busy c then c'
      else if opc = 0x06 \<and> k = 8 then c'\<lparr>wel := True\<rparr>
      else if opc = 0x02 \<and> wel c \<and> 32 \<le> k \<and> k mod 8 = 0 then
        c'\<lparr>mem := page_write (mem c) (chip_address bits) (group_bytes (drop 24 bits)),
           wel := False, busy := t_wc c\<rparr>
      else c')"

definition chip_clock :: "chip \<Rightarrow> chip" where
  "chip_clock c =
     (if selected c then
        let bits = shifted c @ [mosi_level c]
        in c\<lparr>shifted := bits, miso_level := chip_out c bits\<rparr>
      else c)"

definition chip_driver :: "chip driver" where
  "chip_driver =
     \<lparr> cs_low = (\<lambda>c. if selected c then c else c\<lparr>selected := True, shifted := []\<rparr>),
       cs_high = chip_release,
       write_mosi = (\<lambda>b c. c\<lparr>mosi_level := b\<rparr>),
       read_miso = (\<lambda>c. (miso_level c, c)),
       pulse_clock = chip_clock,
       delay_us = (\<lambda>n c. c\<lparr>busy := busy c - n\<rparr>) \<rparr>"

text \<open>A chip at rest: not selected, no write cycle running.\<close>

definition idle :: "chip \<Rightarrow> bool" where
  "idle c \<longleftrightarrow> \<not> selected c \<and> busy c = 0"

definition fresh_chip :: "nat \<Rightarrow> chip" where
  "fresh_chip t =
     \<lparr> mem = (\<lambda>a. 0xFF), wel = False, busy = 0, t_wc = t, selected = False,
       mosi_level = False, miso_level = False, shifted = [] \<rparr>"

section \<open>Reading a log\<close>

text \<open>
  A log is read as a list of items: a frame is what happened between one \<open>cs_low\<close> and
  the next \<open>cs_high\<close>, as the list of bytes exchanged (sent, received); a pause is a call
  of \<open>delay_us\<close>.  \<open>decode\<close> fails on a log that is not of this form: a \<open>cs_low\<close> inside
  a frame, a \<open>cs_high\<close> or line activity outside, a delay inside, a clock without its
  write before and its sample after, a frame that is not a whole number of bytes or
  that is still open at the end.
\<close>

datatype item = Frame "(byte \<times> byte) list" | Pause nat

fun group8 :: "'a list \<Rightarrow> 'a list list option" where
  "group8 [] = Some []"
| "group8 (a # b # c # d # e # f # g # h # rest) =
     map_option ((#) [a, b, c, d, e, f, g, h]) (group8 rest)"
| "group8 _ = None"

definition frame_of :: "(bool \<times> bool) list \<Rightarrow> item option" where
  "frame_of ps =
     map_option (\<lambda>gs. Frame (map (\<lambda>g. (byte_of_bits (map fst g), byte_of_bits (map snd g))) gs))
       (group8 ps)"

datatype decoder = Idle | Open "(bool \<times> bool) list" | Driven "(bool \<times> bool) list" bool
  | Clocked "(bool \<times> bool) list" bool

fun decode_from :: "decoder \<Rightarrow> event list \<Rightarrow> item list option" where
  "decode_from Idle [] = Some []"
| "decode_from Idle (Delay n # es) = map_option ((#) (Pause n)) (decode_from Idle es)"
| "decode_from Idle (CsLow # es) = decode_from (Open []) es"
| "decode_from (Open acc) (Mosi v # es) = decode_from (Driven acc v) es"
| "decode_from (Driven acc v) (Clock # es) = decode_from (Clocked acc v) es"
| "decode_from (Clocked acc v) (Miso m # es) = decode_from (Open (acc @ [(v, m)])) es"
| "decode_from (Open acc) (CsHigh # es) =
     (case frame_of acc of
        None \<Rightarrow> None
      | Some f \<Rightarrow> map_option ((#) f) (decode_from Idle es))"
| "decode_from _ _ = None"

definition decode :: "event list \<Rightarrow> item list option" where
  "decode es = decode_from Idle es"

text \<open>The command trace: the bytes sent in each frame, frame by frame.\<close>

fun sent :: "item list \<Rightarrow> byte list list" where
  "sent [] = []"
| "sent (Frame xs # its) = map fst xs # sent its"
| "sent (Pause n # its) = sent its"

text \<open>The way back, from items to the log that shows them.\<close>

definition byte_events :: "byte \<Rightarrow> byte \<Rightarrow> event list" where
  "byte_events t r = concat (map (\<lambda>(v, m). [Mosi v, Clock, Miso m]) (zip (msb_bits t) (msb_bits r)))"

fun item_events :: "item \<Rightarrow> event list" where
  "item_events (Frame xs) = CsLow # concat (map (\<lambda>(t, r). byte_events t r) xs) @ [CsHigh]"
| "item_events (Pause n) = [Delay n]"

definition events_of :: "item list \<Rightarrow> event list" where
  "events_of its = concat (map item_events its)"

text \<open>
  Chip select over a log: \<open>cs_track a es\<close> follows the line from the level \<open>a\<close> (asserted
  or not) and is \<open>None\<close> as soon as the log asserts an asserted line, releases a released
  one, or moves a data or clock line while the chip is not selected.
\<close>

fun cs_track :: "bool \<Rightarrow> event list \<Rightarrow> bool option" where
  "cs_track a [] = Some a"
| "cs_track a (CsLow # es) = (if a then None else cs_track True es)"
| "cs_track a (CsHigh # es) = (if a then cs_track False es else None)"
| "cs_track a (Delay n # es) = cs_track a es"
| "cs_track a (e # es) = (if a then cs_track a es else None)"

section \<open>Proof vocabulary\<close>

text \<open>
  One iteration of the loop of \<open>transferByte\<close> as the driver sees it: drive MOSI, pulse
  the clock, sample MISO.  \<open>clock_bits\<close> repeats it over a list of levels and collects
  the samples.
\<close>

definition bit_step :: "'d driver \<Rightarrow> bool \<Rightarrow> 'd \<Rightarrow> bool \<times> 'd" where
  "bit_step drv v d = read_miso drv (pulse_clock drv (write_mosi drv v d))"

fun clock_bits :: "'d driver \<Rightarrow> bool list \<Rightarrow> 'd \<Rightarrow> bool list \<times> 'd" where
  "clock_bits drv [] d = ([], d)"
| "clock_bits drv (v # vs) d =
     (case bit_step drv v d of (m, d1) \<Rightarrow>
        case clock_bits drv vs d1 of (ms, d2) \<Rightarrow> (m # ms, d2))"

text \<open>
  A list of bytes sent one after the other, with the bytes received; and a frame: chip
  select asserted, the bytes exchanged, chip select released.
\<close>

fun exchange :: "'d driver \<Rightarrow> byte list \<Rightarrow> 'd \<Rightarrow> byte list \<times> 'd" where
  "exchange drv [] d = ([], d)"
| "exchange drv (t # ts) d =
     (case transferByte drv t d of (r, d1) \<Rightarrow>
        case exchange drv ts d1 of (rs, d2) \<Rightarrow> (r # rs, d2))"

definition frame :: "'d driver \<Rightarrow> byte list \<Rightarrow> 'd \<Rightarrow> byte list \<times> 'd" where
  "frame drv ts d = (case exchange drv ts (cs_low drv d) of (rs, d1) \<Rightarrow> (rs, cs_high drv d1))"

text \<open>
  What a log of \<open>waitUntilWriteComplete\<close> is made of: a status read is the frame of
  RDSR and one dummy byte, answered by \<open>j\<close> and the status \<open>s\<close>; \<open>busy_polls\<close> is a run
  of status reads each followed by the pause of 10 microseconds.
\<close>

definition status_read :: "byte \<Rightarrow> byte \<Rightarrow> item" where
  "status_read j s = Frame [(0x05, j), (0xFF, s)]"

definition busy_polls :: "(byte \<times> byte) list \<Rightarrow> item list" where
  "busy_polls ss = concat (map (\<lambda>(j, s). [status_read j s, Pause 10]) ss)"

text \<open>
  \<open>write_enabled prev fs\<close>: in the command trace \<open>fs\<close>, entered after the frame \<open>prev\<close>,
  every frame that starts with the WRITE opcode comes directly after a frame that is
  the WREN opcode alone.
\<close>

definition is_write :: "byte list \<Rightarrow> bool" where
  "is_write f \<longleftrightarrow> take 1 f = [0x02]"

fun write_enabled :: "byte list \<Rightarrow> byte list list \<Rightarrow> bool" where
  "write_enabled prev [] = True"
| "write_enabled prev (f # fs) = ((is_write f \<longrightarrow> prev = [0x06]) \<and> write_enabled f fs)"

text \<open>The command trace without the status reads.\<close>

definition commands :: "item list \<Rightarrow> byte list list" where
  "commands its = filter (\<lambda>f. f \<noteq> [0x05, 0xFF]) (sent its)"

text \<open>
  The chunks of the specification of \<open>writeArray\<close>: while bytes remain, the next chunk
  is the first \<open>min(remaining, 16 - address mod 16)\<close> of them, at the current address.
\<close>

function page_chunks :: "size_t \<Rightarrow> byte list \<Rightarrow> (size_t \<times> byte list) list" where
  "page_chunks address bytes =
     (if bytes = [] then []
      else
        let chunk = min (length bytes) (16 - address mod 16)
        in (address, take chunk bytes) # page_chunks (address + chunk) (drop chunk bytes))"
  by pat_completeness auto
termination
  by (relation "measure (\<lambda>(address, bytes). length bytes)") auto

declare page_chunks.simps [simp del]

text \<open>
  The log of one call of \<open>waitUntilWriteComplete\<close> that returned: status reads that
  show WIP set, each followed by the pause of 10 microseconds, and a last status read
  that shows WIP clear.
\<close>

definition is_status_read :: "item \<Rightarrow> bool" where
  "is_status_read it \<longleftrightarrow> sent [it] = [[0x05, 0xFF]]"

definition status_of :: "item \<Rightarrow> byte" where
  "status_of it = (case it of Frame xs \<Rightarrow> snd (xs ! 1) | Pause n \<Rightarrow> 0)"

fun wait_items :: "item list \<Rightarrow> bool" where
  "wait_items [] = False"
| "wait_items [it] = (is_status_read it \<and> status_of it AND WIP_MASK = 0)"
| "wait_items (it # p # its) =
     (is_status_read it \<and> status_of it AND WIP_MASK \<noteq> 0 \<and> p = Pause 10 \<and> wait_items its)"

text \<open>
  The log of one page write at address \<open>a\<close> with the data \<open>bs\<close>: a frame that sends WREN
  alone, a frame that sends WRITE, the two address bytes and the data, and the log of a
  wait.  The log of one byte read at \<open>a\<close>: the frame of READ, the address and one dummy.
  The address bytes are those of the wire protocol, written out in arithmetic: the 16-bit
  big-endian address, that is \<open>a div 256 mod 256\<close> and then \<open>a mod 256\<close>.
\<close>

definition page_write_items :: "size_t \<Rightarrow> byte list \<Rightarrow> item list \<Rightarrow> bool" where
  "page_write_items a bs its \<longleftrightarrow>
     (case its of
        w # f # rest \<Rightarrow>
          sent [w] = [[0x06]] \<and>
          sent [f] = [0x02 # of_nat (a div 256 mod 256) # of_nat (a mod 256) # bs] \<and>
          wait_items rest
      | _ \<Rightarrow> False)"

definition read_items :: "size_t \<Rightarrow> item list \<Rightarrow> bool" where
  "read_items a its \<longleftrightarrow>
     (case its of
        [f] \<Rightarrow> sent [f] = [[0x03, of_nat (a div 256 mod 256), of_nat (a mod 256), 0xFF]]
      | _ \<Rightarrow> False)"

text \<open>
  The sequence that \<open>writeByte\<close> and each round of \<open>writeArray\<close> share: write enable,
  the WRITE frame with the address and the data, and the wait.
\<close>

definition write_cycle :: "'d driver \<Rightarrow> size_t \<Rightarrow> byte list \<Rightarrow> 'd \<Rightarrow> 'd option" where
  "write_cycle drv a bs d =
     waitUntilWriteComplete drv
       (snd (frame drv (opcode_byte WRITE # address_high a # address_low a # bs)
               (writeEnable drv d)))"

text \<open>
  The script that makes the scripted stub answer successive status reads with the
  given bytes: eight samples taken while the opcode goes out, then the status, most
  significant bit first.
\<close>

definition status_script :: "byte list \<Rightarrow> bool list" where
  "status_script ss = concat (map (\<lambda>s. replicate 8 False @ msb_bits s) ss)"

text \<open>
  The round of the bit loops at \<open>bits_done\<close> bits: the first bit it takes in its byte,
  the number of bits it takes, the mask of these bits, the bits taken out of a byte,
  and a byte with these bits replaced by the low bits of \<open>w\<close>.
\<close>

definition bit_start :: "u32 \<Rightarrow> u32 \<Rightarrow> u32" where
  "bit_start bitOffset bits_done = (if bits_done = 0 then bitOffset else 0)"

definition bit_count :: "u32 \<Rightarrow> u32 \<Rightarrow> u32 \<Rightarrow> u32" where
  "bit_count bitOffset bitCount bits_done =
     min (8 - bit_start bitOffset bits_done) (bitCount - bits_done)"

definition byte_mask :: "u32 \<Rightarrow> u32 \<Rightarrow> byte" where
  "byte_mask s c = ucast (push_bit (unat s) (push_bit (unat c) (1 :: u32) - 1))"

definition cut_out :: "byte \<Rightarrow> u32 \<Rightarrow> u32 \<Rightarrow> byte" where
  "cut_out b s c = drop_bit (unat s) (b AND byte_mask s c)"

definition splice :: "byte \<Rightarrow> u32 \<Rightarrow> u32 \<Rightarrow> u32 \<Rightarrow> byte" where
  "splice b s c w =
     ucast ((ucast b AND NOT (ucast (byte_mask s c))) OR
            (push_bit (unat s) w AND ucast (byte_mask s c)) :: u32)"

text \<open>The most rounds a bit loop can take from \<open>bits_done\<close> bits on.\<close>

definition rounds_left :: "u32 \<Rightarrow> u32 \<Rightarrow> nat" where
  "rounds_left bitCount bits_done =
     (if bits_done = 0 then 5 else (unat bitCount - unat bits_done + 7) div 8)"

text \<open>
  The log of one round of \<open>writeBits\<close> at the byte \<open>a\<close>: the read of the byte, then the
  page write of one byte at the same address.
\<close>

definition rmw_items :: "size_t \<Rightarrow> item list \<Rightarrow> bool" where
  "rmw_items a its \<longleftrightarrow>
     (case its of
        r # w # f # rest \<Rightarrow>
          read_items a [r] \<and> length (concat (sent [f])) = 4 \<and>
          page_write_items a (drop 3 (concat (sent [f]))) (w # f # rest)
      | _ \<Rightarrow> False)"

text \<open>Two chip states with the same cells, latch, write cycle and cycle time.\<close>

definition same_store :: "chip \<Rightarrow> chip \<Rightarrow> bool" where
  "same_store c c' \<longleftrightarrow>
     mem c' = mem c \<and> wel c' = wel c \<and> busy c' = busy c \<and> t_wc c' = t_wc c"

text \<open>
  What the chip answers: \<open>answer c pre bits\<close> is the byte it shifts out while the eight
  bits \<open>bits\<close> are clocked in after the bits \<open>pre\<close> of the frame, and \<open>answers\<close> lists
  the answers to the bytes of a frame.
\<close>

definition answer :: "chip \<Rightarrow> bool list \<Rightarrow> bool list \<Rightarrow> byte" where
  "answer c pre bits = byte_of_bits (map (\<lambda>k. chip_out c (pre @ take (Suc k) bits)) [0..<8])"

fun answers :: "chip \<Rightarrow> bool list \<Rightarrow> byte list \<Rightarrow> byte list" where
  "answers c pre [] = []"
| "answers c pre (t # ts) = answer c pre (msb_bits t) # answers c (pre @ msb_bits t) ts"

text \<open>
  Bits of the memory, counted from bit 0 of the byte at \<open>a\<close>: bit \<open>p\<close> is bit \<open>p mod 8\<close> of
  the byte \<open>p div 8\<close> bytes on, the address taken modulo the 512 cells as the chip does.
  \<open>in_span a s len x i\<close> says that bit \<open>i\<close> of the cell \<open>x\<close> is one of the \<open>len\<close> bits from
  bit \<open>s\<close> on.
\<close>

definition bit_at :: "(nat \<Rightarrow> byte) \<Rightarrow> nat \<Rightarrow> nat \<Rightarrow> bool" where
  "bit_at m a p = bit (m ((a + p div 8) mod 512)) (p mod 8)"

definition in_span :: "nat \<Rightarrow> nat \<Rightarrow> nat \<Rightarrow> nat \<Rightarrow> nat \<Rightarrow> bool" where
  "in_span a s len x i \<longleftrightarrow> (\<exists>p \<in> {s..<s + len}. x = (a + p div 8) mod 512 \<and> i = p mod 8)"

section \<open>Bytes and bits\<close>

lemma test_bit_eq: "(drop_bit n (w::byte) AND 1 \<noteq> 0) = bit w n"
  by (simp add: bit_iff_odd_drop_bit and_one_eq odd_iff_mod_2_eq_one)

lemma bit_times_2: "bit (w * 2 :: byte) n = (n \<noteq> 0 \<and> n < 8 \<and> bit w (n - 1))"
  using bit_push_bit_iff [of 1 w n] by (auto simp: possible_bit_word)

lemma bit_shift_in: "bit (shift_in w m) i = (i < 8 \<and> (if i = 0 then m else bit w (i - 1)))"
  by (cases i) (auto simp: shift_in_def bit_or_iff bit_times_2 bit_1_iff bit_0 even_or_iff)

lemma bit_foldl_shift_in:
  "bit (foldl shift_in w ms) i =
     (i < 8 \<and> (if i < length ms then ms ! (length ms - 1 - i) else bit w (i - length ms)))"
proof (induction ms arbitrary: i rule: rev_induct)
  case Nil
  then show ?case by (auto dest: bit_imp_le_length)
next
  case (snoc m ms)
  show ?case
    by (cases i) (auto simp: bit_shift_in snoc.IH nth_append)
qed

lemma length_msb_bits [simp]: "length (msb_bits w) = 8"
  by (simp add: msb_bits_def)

lemma byte_of_msb_bits [simp]: "byte_of_bits (msb_bits w) = w"
  by (rule bit_word_eqI)
     (auto simp: byte_of_bits_def msb_bits_def bit_foldl_shift_in rev_nth)

lemma msb_bits_byte_of [simp]: "length ms = 8 \<Longrightarrow> msb_bits (byte_of_bits ms) = ms"
  by (rule nth_equalityI)
     (auto simp: byte_of_bits_def msb_bits_def bit_foldl_shift_in rev_nth)

lemma nat_and_255: "(x::nat) AND 0xFF = x mod 256"
proof -
  have m: "(0xFF::nat) = mask 8" by (simp add: mask_eq_exp_minus_1)
  have "x AND mask 8 = x mod 256"
    by (simp only: take_bit_eq_mask [symmetric] take_bit_eq_mod) simp
  then show ?thesis by (simp only: m)
qed

lemma address_high_wire: "address_high a = of_nat (a div 256 mod 256)"
  by (simp add: address_high_def nat_and_255 drop_bit_eq_div)

lemma address_low_wire: "address_low a = of_nat (a mod 256)"
  by (simp add: address_low_def nat_and_255)

section \<open>The transfer loop\<close>

lemma loop_done: "transferByte_loop drv tx (- 1) rx d = (rx, d)"
  by (simp add: transferByte_loop.simps)

lemma loop_Suc:
  "transferByte_loop drv tx (int n) rx d =
     (case bit_step drv (bit tx n) d of (m, d3) \<Rightarrow>
        transferByte_loop drv tx (int n - 1) (shift_in rx m) d3)"
  by (subst transferByte_loop.simps)
     (simp add: bit_step_def test_bit_eq Let_def shift_in_def)

lemma loop_clock_bits:
  "transferByte_loop drv tx (int n - 1) rx d =
     (case clock_bits drv (map (bit tx) (rev [0..<n])) d of
        (ms, d') \<Rightarrow> (foldl shift_in rx ms, d'))"
proof (induction n arbitrary: rx d)
  case 0
  show ?case by (simp add: loop_done)
next
  case (Suc n)
  have "transferByte_loop drv tx (int (Suc n) - 1) rx d = transferByte_loop drv tx (int n) rx d"
    by (simp)
  then show ?case
    by (simp add: loop_Suc Suc.IH split: prod.splits)
qed

lemma transferByte_clock_bits:
  "transferByte drv tx d =
     (case clock_bits drv (msb_bits tx) d of (ms, d') \<Rightarrow> (byte_of_bits ms, d'))"
  using loop_clock_bits [of drv tx 8 0 d]
  by (simp add: transferByte_def msb_bits_def byte_of_bits_def)

lemma length_clock_bits [simp]: "length (fst (clock_bits drv vs d)) = length vs"
  by (induction vs arbitrary: d) (simp_all add: split_beta)

section \<open>The stubs under the transfer loop\<close>

lemma bit_step_traced:
  "bit_step (traced drv) v (tr, d) =
     (case bit_step drv v d of (m, d') \<Rightarrow> (m, (tr @ [Mosi v, Clock, Miso m], d')))"
  by (simp add: bit_step_def traced_def split: prod.splits)

lemma clock_bits_traced:
  "clock_bits (traced drv) vs (tr, d) =
     (case clock_bits drv vs d of (ms, d') \<Rightarrow>
        (ms, (tr @ concat (map (\<lambda>(v, m). [Mosi v, Clock, Miso m]) (zip vs ms)), d')))"
  by (induction vs arbitrary: tr d) (simp_all add: bit_step_traced split: prod.splits)

lemma transferByte_traced:
  "transferByte (traced drv) tx (tr, d) =
     (case transferByte drv tx d of (rx, d') \<Rightarrow> (rx, (tr @ byte_events tx rx, d')))"
proof (cases "clock_bits drv (msb_bits tx) d")
  case (Pair ms d')
  with length_clock_bits [of drv "msb_bits tx" d] have "length ms = 8" by simp
  with Pair show ?thesis
    by (simp add: transferByte_clock_bits clock_bits_traced byte_events_def)
qed

lemma bit_step_echo: "bit_step echo_driver v d = (v, v)"
  by (simp add: bit_step_def echo_driver_def)

lemma clock_bits_echo: "fst (clock_bits echo_driver vs d) = vs"
  by (induction vs arbitrary: d) (simp_all add: bit_step_echo split_beta)

lemma transferByte_echo: "fst (transferByte echo_driver x d) = x"
  by (simp add: transferByte_clock_bits split_beta clock_bits_echo)

lemma byte_events_explicit:
  "byte_events t r =
     [Mosi (bit t 7), Clock, Miso (bit r 7), Mosi (bit t 6), Clock, Miso (bit r 6),
      Mosi (bit t 5), Clock, Miso (bit r 5), Mosi (bit t 4), Clock, Miso (bit r 4),
      Mosi (bit t 3), Clock, Miso (bit r 3), Mosi (bit t 2), Clock, Miso (bit r 2),
      Mosi (bit t 1), Clock, Miso (bit r 1), Mosi (bit t 0), Clock, Miso (bit r 0)]"
  by (simp add: byte_events_def msb_bits_def upt_rec eval_nat_numeral)

text \<open>
  C5.  Whatever the driver, a call of \<open>transferByte\<close> makes exactly 24 calls of it: for
  bit 7 down to bit 0 of the argument it drives MOSI with that bit, pulses the clock
  and samples MISO, and the byte it returns has the eight samples as its bits 7 down
  to 0.  On the stub that echoes MOSI on MISO it returns its argument, for every
  byte, so for \<open>0x00\<close>, \<open>0xFF\<close> and \<open>0xA5\<close>.
\<close>

theorem transferByte_msb_first:
  "transferByte (traced drv) tx (tr, d) =
     (case transferByte drv tx d of (rx, d') \<Rightarrow>
        (rx,
         (tr @ [Mosi (bit tx 7), Clock, Miso (bit rx 7), Mosi (bit tx 6), Clock, Miso (bit rx 6),
                Mosi (bit tx 5), Clock, Miso (bit rx 5), Mosi (bit tx 4), Clock, Miso (bit rx 4),
                Mosi (bit tx 3), Clock, Miso (bit rx 3), Mosi (bit tx 2), Clock, Miso (bit rx 2),
                Mosi (bit tx 1), Clock, Miso (bit rx 1), Mosi (bit tx 0), Clock, Miso (bit rx 0)],
          d')))
   \<and> fst (transferByte echo_driver x e) = x
   \<and> fst (transferByte echo_driver 0x00 e) = 0x00
   \<and> fst (transferByte echo_driver 0xFF e) = 0xFF
   \<and> fst (transferByte echo_driver 0xA5 e) = 0xA5"
  by (simp add: transferByte_traced transferByte_echo byte_events_explicit split: prod.splits)

section \<open>The operations as frames\<close>

lemma length_exchange [simp]: "length (fst (exchange drv ts d)) = length ts"
  by (induction ts arbitrary: d) (simp_all add: split_beta)

lemma length_frame [simp]: "length (fst (frame drv ts d)) = length ts"
  by (simp add: frame_def split_beta)

lemma exchange_append:
  "exchange drv (ts @ us) d =
     (case exchange drv ts d of (rs, d1) \<Rightarrow>
        case exchange drv us d1 of (qs, d2) \<Rightarrow> (rs @ qs, d2))"
  by (induction ts arbitrary: d) (simp_all add: split_beta)

lemma readByte_frame:
  "readByte drv a d =
     (case frame drv [opcode_byte READ, address_high a, address_low a, 0xFF] d of
        (rs, d') \<Rightarrow> (rs ! 3, d'))"
  by (simp add: readByte_def frame_def Let_def split_beta)

lemma writeEnable_frame: "writeEnable drv d = snd (frame drv [opcode_byte WREN] d)"
  by (simp add: writeEnable_def frame_def Let_def split_beta)

lemma readStatus_frame:
  "readStatus drv d = (case frame drv [opcode_byte RDSR, 0xFF] d of (rs, d') \<Rightarrow> (rs ! 1, d'))"
  by (simp add: readStatus_def frame_def Let_def split_beta)

lemma writeByte_frame:
  "writeByte drv a v d =
     waitUntilWriteComplete drv
       (snd (frame drv [opcode_byte WRITE, address_high a, address_low a, v] (writeEnable drv d)))"
  by (simp add: writeByte_def frame_def Let_def split_beta)

lemma readArray_loop_exchange:
  "readArray_loop drv buf i len d =
     (case exchange drv (replicate (len - i) 0xFF) d of
        (rs, d') \<Rightarrow> (\<lambda>j. if i \<le> j \<and> j < len then rs ! (j - i) else buf j, d'))"
proof (induction drv buf i len d rule: readArray_loop.induct)
  case (1 drv buf i len d)
  show ?case
  proof (cases "i < len")
    case True
    obtain v d1 where t: "transferByte drv 0xFF d = (v, d1)"
      by (cases "transferByte drv 0xFF d")
    obtain rs d2 where e: "exchange drv (replicate (len - (i + 1)) 0xFF) d1 = (rs, d2)"
      by (cases "exchange drv (replicate (len - (i + 1)) 0xFF) d1")
    have r: "replicate (len - i) (0xFF::byte) = 0xFF # replicate (len - (i + 1)) 0xFF"
      using True by (cases "len - i") auto
    have "readArray_loop drv buf i len d = readArray_loop drv (buf(i := v)) (i + 1) len d1"
      using True t by (subst readArray_loop.simps) simp
    also have "\<dots> = (\<lambda>j. if i + 1 \<le> j \<and> j < len then rs ! (j - (i + 1)) else (buf(i := v)) j, d2)"
      unfolding "1.IH" [OF True t [symmetric] refl] e by (simp only: prod.case)
    also have "(\<lambda>j. if i + 1 \<le> j \<and> j < len then rs ! (j - (i + 1)) else (buf(i := v)) j)
             = (\<lambda>j. if i \<le> j \<and> j < len then (v # rs) ! (j - i) else buf j)"
      using True by (auto simp: fun_eq_iff nth_Cons')
    finally show ?thesis
      unfolding r using t e by simp
  next
    case False
    then show ?thesis by (subst readArray_loop.simps) (auto simp: fun_eq_iff)
  qed
qed

lemma writeArray_page_exchange:
  "writeArray_page drv buf offset i chunk d =
     snd (exchange drv (map buf [offset + i..<offset + chunk]) d)"
proof (induction drv buf offset i chunk d rule: writeArray_page.induct)
  case (1 drv buf offset i chunk d)
  show ?case
  proof (cases "i < chunk")
    case True
    obtain v d1 where t: "transferByte drv (buf (offset + i)) d = (v, d1)"
      by (cases "transferByte drv (buf (offset + i)) d")
    have r: "[offset + i..<offset + chunk] = (offset + i) # [offset + (i + 1)..<offset + chunk]"
      using True by (simp add: upt_conv_Cons)
    have "writeArray_page drv buf offset i chunk d = writeArray_page drv buf offset (i + 1) chunk d1"
      using True t by (subst writeArray_page.simps) simp
    also have "\<dots> = snd (exchange drv (map buf [offset + (i + 1)..<offset + chunk]) d1)"
      using "1.IH" [OF True t [symmetric] refl] by simp
    finally show ?thesis
      unfolding r using t by (simp add: split_beta)
  next
    case False
    then show ?thesis by (subst writeArray_page.simps) auto
  qed
qed

lemma readArray_frame:
  "readArray drv a (Some buf) len d =
     (if len = 0 then (Some buf, d)
      else case frame drv ([opcode_byte READ, address_high a, address_low a] @ replicate len 0xFF) d of
        (rs, d') \<Rightarrow> (Some (\<lambda>j. if j < len then rs ! (3 + j) else buf j), d'))"
  by (simp add: readArray_def frame_def Let_def split_beta readArray_loop_exchange
        numeral_3_eq_3 cong: if_cong)

lemma writeArray_loop_frame:
  "writeArray_loop drv buf address offset remaining d =
     (if remaining > 0 then
        let chunk = min remaining (PAGE_SIZE - address mod PAGE_SIZE);
            d7 = snd (frame drv ([opcode_byte WRITE, address_high address, address_low address]
                                  @ map buf [offset..<offset + chunk]) (writeEnable drv d))
        in case waitUntilWriteComplete drv d7 of
             None \<Rightarrow> None
           | Some d8 \<Rightarrow> writeArray_loop drv buf (address + chunk) (offset + chunk) (remaining - chunk) d8
      else Some d)"
  by (subst writeArray_loop.simps)
     (auto simp: frame_def Let_def split_beta writeArray_page_exchange [of _ _ _ 0, simplified] min_def)

section \<open>Logs and their items\<close>

lemma traced_simps [simp]:
  "cs_low (traced drv) (tr, d) = (tr @ [CsLow], cs_low drv d)"
  "cs_high (traced drv) (tr, d) = (tr @ [CsHigh], cs_high drv d)"
  "delay_us (traced drv) n (tr, d) = (tr @ [Delay n], delay_us drv n d)"
  by (simp_all add: traced_def)

lemma exchange_traced:
  "exchange (traced drv) ts (tr, d) =
     (case exchange drv ts d of (rs, d') \<Rightarrow>
        (rs, (tr @ concat (map (\<lambda>(t, r). byte_events t r) (zip ts rs)), d')))"
  by (induction ts arbitrary: tr d) (simp_all add: transferByte_traced split_beta)

lemma frame_traced:
  "frame (traced drv) ts (tr, d) =
     (case frame drv ts d of (rs, d') \<Rightarrow> (rs, (tr @ item_events (Frame (zip ts rs)), d')))"
  by (simp add: frame_def exchange_traced split_beta)

lemma decode_pairs:
  "decode_from (Open acc) (concat (map (\<lambda>(v, m). [Mosi v, Clock, Miso m]) ps) @ es) =
     decode_from (Open (acc @ ps)) es"
  by (induction ps arbitrary: acc) (simp_all add: split_beta)

lemma decode_byte_events:
  "decode_from (Open acc) (byte_events t r @ es) =
     decode_from (Open (acc @ zip (msb_bits t) (msb_bits r))) es"
  by (simp add: byte_events_def decode_pairs)

lemma decode_bytes:
  "decode_from (Open acc) (concat (map (\<lambda>(t, r). byte_events t r) xs) @ es) =
     decode_from (Open (acc @ concat (map (\<lambda>(t, r). zip (msb_bits t) (msb_bits r)) xs))) es"
  by (induction xs arbitrary: acc) (simp_all add: split_beta decode_byte_events)

lemma msb_bits_8: "\<exists>a b c d e f g h. msb_bits w = [a, b, c, d, e, f, g, h]"
  by (simp add: msb_bits_def upt_rec eval_nat_numeral)

lemma group8_bytes:
  "group8 (concat (map (\<lambda>(t, r). zip (msb_bits t) (msb_bits r)) xs)) =
     Some (map (\<lambda>(t, r). zip (msb_bits t) (msb_bits r)) xs)"
proof (induction xs)
  case Nil
  show ?case by simp
next
  case (Cons x xs)
  obtain t r where x: "x = (t, r)" by (cases x)
  obtain a b c d e f g h where t: "msb_bits t = [a, b, c, d, e, f, g, h]"
    using msb_bits_8 by blast
  obtain a' b' c' d' e' f' g' h' where r: "msb_bits r = [a', b', c', d', e', f', g', h']"
    using msb_bits_8 by blast
  show ?case using Cons by (simp add: x t r)
qed

lemma frame_of_bytes:
  "frame_of (concat (map (\<lambda>(t, r). zip (msb_bits t) (msb_bits r)) xs)) = Some (Frame xs)"
  by (simp add: frame_of_def group8_bytes comp_def split_beta map_fst_zip map_snd_zip map_idI)

lemma decode_item: "decode_from Idle (item_events it @ es) = map_option ((#) it) (decode_from Idle es)"
proof (cases it)
  case (Frame xs)
  then show ?thesis
    using decode_bytes [of "[]" xs "CsHigh # es"] by (simp add: frame_of_bytes)
next
  case (Pause n)
  then show ?thesis by simp
qed

lemma decode_events_append:
  "decode_from Idle (events_of its @ es) = map_option ((@) its) (decode_from Idle es)"
  by (induction its) (simp_all add: events_of_def decode_item option.map_comp comp_def option.map_ident)

lemma decode_events_of: "decode (events_of its) = Some its"
  using decode_events_append [of its "[]"] by (simp add: decode_def)

lemma cs_pairs: "cs_track True (concat (map (\<lambda>(v, m). [Mosi v, Clock, Miso m]) ps) @ es) = cs_track True es"
  by (induction ps) (simp_all add: split_beta)

lemma cs_bytes: "cs_track True (concat (map (\<lambda>(t, r). byte_events t r) xs) @ es) = cs_track True es"
  by (induction xs) (simp_all add: split_beta byte_events_def cs_pairs)

lemma cs_item: "cs_track False (item_events it @ es) = cs_track False es"
  using cs_bytes [of _ "CsHigh # es"] by (cases it) simp_all

lemma cs_events_append: "cs_track False (events_of its @ es) = cs_track False es"
  by (induction its) (simp_all add: events_of_def cs_item)

lemma cs_events_of: "cs_track False (events_of its) = Some False"
  using cs_events_append [of its "[]"] by simp

lemma events_of_append [simp]: "events_of (its @ its') = events_of its @ events_of its'"
  by (simp add: events_of_def)

lemma events_of_Nil [simp]: "events_of [] = []"
  by (simp add: events_of_def)

lemma events_of_single: "events_of [it] = item_events it"
  by (simp add: events_of_def)

section \<open>The log of each operation\<close>

lemma frame_traced_ex:
  "\<exists>xs. map fst xs = ts \<and> map snd xs = fst (frame drv ts d) \<and>
     frame (traced drv) ts (tr, d) =
       (fst (frame drv ts d), (tr @ item_events (Frame xs), snd (frame drv ts d)))"
  by (rule exI [of _ "zip ts (fst (frame drv ts d))"])
     (simp add: frame_traced split_beta)

lemma length_2_ex: "length xs = 2 \<Longrightarrow> \<exists>a b. xs = [a, b]"
  by (auto simp: numeral_2_eq_2 length_Suc_conv)

lemma readStatus_traced:
  "\<exists>it. is_status_read it \<and> status_of it = fst (readStatus drv d) \<and>
     readStatus (traced drv) (tr, d) =
       (fst (readStatus drv d), (tr @ item_events it, snd (readStatus drv d)))"
proof -
  let ?rs = "fst (frame drv [opcode_byte RDSR, 0xFF] d)"
  let ?it = "Frame (zip [opcode_byte RDSR, 0xFF] ?rs)"
  have "\<exists>j s. ?rs = [j, s]" by (rule length_2_ex) simp
  then obtain j s where rs: "?rs = [j, s]" by (elim exE)
  have "is_status_read ?it" by (simp add: rs is_status_read_def)
  moreover have "status_of ?it = fst (readStatus drv d)"
    by (simp add: rs status_of_def readStatus_frame split_beta)
  moreover have "readStatus (traced drv) (tr, d) =
       (fst (readStatus drv d), (tr @ item_events ?it, snd (readStatus drv d)))"
    by (simp add: rs readStatus_frame frame_traced split_beta)
  ultimately show ?thesis by (intro exI [of _ ?it] conjI)
qed


lemma wait_items_step:
  "is_status_read it \<Longrightarrow> status_of it AND WIP_MASK \<noteq> 0 \<Longrightarrow> wait_items its \<Longrightarrow>
   wait_items (it # Pause 10 # its)"
  by simp

lemma waitUntilWriteComplete_traced_aux:
  assumes "waitUntilWriteComplete drv0 td = Some td'"
  shows "\<forall>drv tr d. drv0 = traced drv \<and> td = (tr, d) \<longrightarrow>
           (\<exists>its d'. wait_items its \<and> td' = (tr @ events_of its, d') \<and>
              waitUntilWriteComplete drv d = Some d')"
proof (rule waitUntilWriteComplete.raw_induct [where P = "\<lambda>drv0 td td'. \<forall>drv tr d. drv0 = traced drv \<and> td = (tr, d) \<longrightarrow>
           (\<exists>its d'. wait_items its \<and> td' = (tr @ events_of its, d') \<and>
              waitUntilWriteComplete drv d = Some d')", OF _ assms])
  fix wait and drv0 :: "(event list \<times> 'a) driver" and td td'
  assume 1: "\<And>drv0 td td'. wait drv0 td = Some td' \<Longrightarrow> \<forall>drv tr d. drv0 = traced drv \<and> td = (tr, d) \<longrightarrow>
           (\<exists>its d'. wait_items its \<and> td' = (tr @ events_of its, d') \<and>
              waitUntilWriteComplete drv d = Some d')"
     "(case readStatus drv0 td of
      (status, d1) \<Rightarrow>
        if status AND WIP_MASK = 0 then Some d1
        else wait drv0 (delay_us drv0 10 d1)) = Some td'"
  show "\<forall>drv tr d. drv0 = traced drv \<and> td = (tr, d) \<longrightarrow>
           (\<exists>its d'. wait_items its \<and> td' = (tr @ events_of its, d') \<and>
              waitUntilWriteComplete drv d = Some d')"
  proof (intro allI impI, elim conjE)
    fix drv tr d
    assume eq: "drv0 = traced drv" "td = (tr, d)"
    obtain it where it: "is_status_read it" "status_of it = fst (readStatus drv d)"
       "readStatus (traced drv) (tr, d) =
          (fst (readStatus drv d), (tr @ item_events it, snd (readStatus drv d)))"
      using readStatus_traced [of drv d tr] by (elim exE conjE)
    let ?s = "fst (readStatus drv d)" and ?d1 = "snd (readStatus drv d)"
    show "\<exists>its d'. wait_items its \<and> td' = (tr @ events_of its, d') \<and>
              waitUntilWriteComplete drv d = Some d'"
    proof (cases "?s AND WIP_MASK = 0")
      case True
      with 1(2) eq it have "td' = (tr @ events_of [it], ?d1)"
        by (simp add: events_of_single)
      moreover have "wait_items [it]" using it True by simp
      moreover have "waitUntilWriteComplete drv d = Some ?d1"
        using True by (subst waitUntilWriteComplete.simps) (simp add: split_beta)
      ultimately show ?thesis by (intro exI [of _ "[it]"] exI [of _ ?d1] conjI)
    next
      case False
      with 1(2) eq it
      have "wait (traced drv) (tr @ item_events it @ [Delay 10], delay_us drv 10 ?d1) = Some td'"
        by simp
      from 1(1) [OF this, rule_format, OF conjI [OF refl refl]]
      obtain its d' where its: "wait_items its"
          "td' = ((tr @ item_events it @ [Delay 10]) @ events_of its, d')"
          "waitUntilWriteComplete drv (delay_us drv 10 ?d1) = Some d'"
        by (elim exE conjE)
      have "td' = (tr @ events_of (it # Pause 10 # its), d')"
        using its(2) by (simp add: events_of_def)
      moreover have "wait_items (it # Pause 10 # its)"
        using it False its(1) by simp
      moreover have "waitUntilWriteComplete drv d = Some d'"
        using False its(3) by (subst waitUntilWriteComplete.simps) (simp add: split_beta)
      ultimately show ?thesis by (intro exI [of _ "it # Pause 10 # its"] exI [of _ d'] conjI)
    qed
  qed
qed

lemma waitUntilWriteComplete_traced:
  "waitUntilWriteComplete (traced drv) (tr, d) = Some td' \<Longrightarrow>
     \<exists>its d'. wait_items its \<and> td' = (tr @ events_of its, d') \<and>
        waitUntilWriteComplete drv d = Some d'"
  using waitUntilWriteComplete_traced_aux by blast

lemma sent_Frame: "sent [Frame xs] = [map fst xs]"
  by simp

lemma readByte_traced:
  "\<exists>its. read_items a its \<and>
     readByte (traced drv) a (tr, d) =
       (fst (readByte drv a d), (tr @ events_of its, snd (readByte drv a d)))"
proof -
  let ?ts = "[opcode_byte READ, address_high a, address_low a, 0xFF]"
  let ?it = "Frame (zip ?ts (fst (frame drv ?ts d)))"
  have "read_items a [?it]"
    by (simp add: read_items_def address_high_wire address_low_wire)
  moreover have "readByte (traced drv) a (tr, d) =
       (fst (readByte drv a d), (tr @ events_of [?it], snd (readByte drv a d)))"
    by (simp add: readByte_frame frame_traced split_beta events_of_def)
  ultimately show ?thesis by (intro exI [of _ "[?it]"] conjI)
qed

lemma writeEnable_traced:
  "\<exists>w. sent [w] = [[0x06]] \<and>
     writeEnable (traced drv) (tr, d) = (tr @ events_of [w], writeEnable drv d)"
proof -
  let ?ts = "[opcode_byte WREN]"
  let ?it = "Frame (zip ?ts (fst (frame drv ?ts d)))"
  have "sent [?it] = [[0x06]]" by simp
  moreover have "writeEnable (traced drv) (tr, d) = (tr @ events_of [?it], writeEnable drv d)"
    by (simp add: writeEnable_frame frame_traced split_beta events_of_def)
  ultimately show ?thesis by (intro exI [of _ ?it] conjI)
qed

lemma writeByte_cycle: "writeByte drv a v d = write_cycle drv a [v] d"
  by (simp add: writeByte_frame write_cycle_def)

lemma writeArray_loop_cycle:
  "writeArray_loop drv buf address offset remaining d =
     (if remaining > 0 then
        let chunk = min remaining (PAGE_SIZE - address mod PAGE_SIZE)
        in case write_cycle drv address (map buf [offset..<offset + chunk]) d of
             None \<Rightarrow> None
           | Some d8 \<Rightarrow> writeArray_loop drv buf (address + chunk) (offset + chunk) (remaining - chunk) d8
      else Some d)"
  by (subst writeArray_loop_frame) (simp add: write_cycle_def Let_def)

lemma write_cycle_traced:
  assumes "write_cycle (traced drv) a bs (tr, d) = Some td'"
  shows "\<exists>its d'. page_write_items a bs its \<and> td' = (tr @ events_of its, d') \<and>
           write_cycle drv a bs d = Some d'"
proof -
  let ?ts = "opcode_byte WRITE # address_high a # address_low a # bs"
  obtain w where w: "sent [w] = [[0x06]]"
      "writeEnable (traced drv) (tr, d) = (tr @ events_of [w], writeEnable drv d)"
    using writeEnable_traced [of drv tr d] by (elim exE conjE)
  let ?d1 = "writeEnable drv d"
  let ?f = "Frame (zip ?ts (fst (frame drv ?ts ?d1)))"
  let ?d2 = "snd (frame drv ?ts ?d1)"
  have f: "sent [?f] = [0x02 # of_nat (a div 256 mod 256) # of_nat (a mod 256) # bs]"
    by (simp add: address_high_wire address_low_wire)
  have "snd (frame (traced drv) ?ts (writeEnable (traced drv) (tr, d))) =
          (tr @ events_of [w, ?f], ?d2)"
    by (simp add: w(2) frame_traced split_beta events_of_def)
  with assms have "waitUntilWriteComplete (traced drv) (tr @ events_of [w, ?f], ?d2) = Some td'"
    by (simp add: write_cycle_def)
  from waitUntilWriteComplete_traced [OF this]
  obtain its d' where its: "wait_items its" "td' = ((tr @ events_of [w, ?f]) @ events_of its, d')"
      "waitUntilWriteComplete drv ?d2 = Some d'"
    by (elim exE conjE)
  have "page_write_items a bs (w # ?f # its)"
    unfolding page_write_items_def using w(1) f its(1) by simp
  moreover have "td' = (tr @ events_of (w # ?f # its), d')"
    using its(2) by (simp add: events_of_def)
  moreover have "write_cycle drv a bs d = Some d'"
    using its(3) by (simp add: write_cycle_def)
  ultimately show ?thesis by (intro exI [of _ "w # ?f # its"] exI [of _ d'] conjI)
qed

lemma page_chunks_range:
  "0 < remaining \<Longrightarrow>
   page_chunks address (map buf [offset..<offset + remaining]) =
     (let chunk = min remaining (PAGE_SIZE - address mod PAGE_SIZE)
      in (address, map buf [offset..<offset + chunk]) #
         page_chunks (address + chunk) (map buf [offset + chunk..<offset + chunk + (remaining - chunk)]))"
  by (subst page_chunks.simps)
     (auto simp: Let_def PAGE_SIZE_def take_map drop_map take_upt drop_upt min_def)

lemma writeArray_loop_traced:
  "writeArray_loop (traced drv) buf address offset remaining (tr, d) = Some td' \<Longrightarrow>
     \<exists>itss d'.
       list_all2 (\<lambda>(a, bs) its. page_write_items a bs its)
         (page_chunks address (map buf [offset..<offset + remaining])) itss \<and>
       td' = (tr @ events_of (concat itss), d') \<and>
       writeArray_loop drv buf address offset remaining d = Some d'"
proof (induction remaining arbitrary: address offset tr d rule: less_induct)
  case (less remaining)
  show ?case
  proof (cases "0 < remaining")
    case False
    with less.prems show ?thesis
      by (subst (asm) writeArray_loop_cycle, subst writeArray_loop_cycle)
         (simp add: page_chunks.simps)
  next
    case True
    define chunk where "chunk = min remaining (PAGE_SIZE - address mod PAGE_SIZE)"
    have chunk: "0 < chunk" "chunk \<le> remaining"
      using True by (simp_all add: chunk_def PAGE_SIZE_def)
    let ?bs = "map buf [offset..<offset + chunk]"
    from less.prems True obtain td1 where
      c: "write_cycle (traced drv) address ?bs (tr, d) = Some td1"
      and r: "writeArray_loop (traced drv) buf (address + chunk) (offset + chunk) (remaining - chunk) td1 = Some td'"
      by (subst (asm) writeArray_loop_cycle)
         (auto simp: Let_def chunk_def [symmetric] split: option.splits)
    from write_cycle_traced [OF c] obtain its d1 where
      its: "page_write_items address ?bs its" "td1 = (tr @ events_of its, d1)"
        "write_cycle drv address ?bs d = Some d1"
      by (elim exE conjE)
    have "remaining - chunk < remaining" using chunk True by simp
    from less.IH [OF this r [unfolded its(2)]] obtain itss d' where
      itss: "list_all2 (\<lambda>(a, bs) its. page_write_items a bs its)
         (page_chunks (address + chunk) (map buf [offset + chunk..<offset + chunk + (remaining - chunk)])) itss"
        "td' = ((tr @ events_of its) @ events_of (concat itss), d')"
        "writeArray_loop drv buf (address + chunk) (offset + chunk) (remaining - chunk) d1 = Some d'"
      by (elim exE conjE)
    have "list_all2 (\<lambda>(a, bs) its. page_write_items a bs its)
         (page_chunks address (map buf [offset..<offset + remaining])) (its # itss)"
      using its(1) itss(1) by (simp add: page_chunks_range [OF True] Let_def chunk_def [symmetric])
    moreover have "td' = (tr @ events_of (concat (its # itss)), d')"
      using itss(2) by simp
    moreover have "writeArray_loop drv buf address offset remaining d = Some d'"
      using True its(3) itss(3)
      by (subst writeArray_loop_cycle) (simp add: Let_def chunk_def [symmetric])
    ultimately show ?thesis by (intro exI [of _ "its # itss"] exI [of _ d'] conjI)
  qed
qed

section \<open>Page chunks\<close>

lemma page_chunks_Nil [simp]: "page_chunks address [] = []"
  by (simp add: page_chunks.simps)

lemma page_chunks_within:
  "(a, bs) \<in> set (page_chunks address bytes) \<Longrightarrow>
     bs \<noteq> [] \<and> length bs \<le> 16 \<and> a div 16 = (a + length bs - 1) div 16"
proof (induction address bytes rule: page_chunks.induct)
  case (1 address bytes)
  show ?case
  proof (cases "bytes = []")
    case True
    with "1.prems" show ?thesis by simp
  next
    case False
    define chunk where "chunk = min (length bytes) (16 - address mod 16)"
    have c: "0 < chunk" "chunk \<le> 16 - address mod 16" "chunk \<le> length bytes"
      using False by (simp_all add: chunk_def)
    from "1.prems" False
    have "(a, bs) = (address, take chunk bytes) \<or>
          (a, bs) \<in> set (page_chunks (address + chunk) (drop chunk bytes))"
      by (subst (asm) page_chunks.simps) (simp add: Let_def chunk_def)
    then show ?thesis
    proof
      assume "(a, bs) = (address, take chunk bytes)"
      then have a: "a = address" and l: "length bs = chunk" using c by auto
      have "bs \<noteq> []" using l c by auto
      moreover have "a div 16 = (a + length bs - 1) div 16"
      proof -
        have r: "address mod 16 + chunk - 1 < 16" using c by linarith
        have "address + chunk - 1 = (address mod 16 + chunk - 1) + 16 * (address div 16)"
          using c by simp
        then have "(address + chunk - 1) div 16 = address div 16"
          using r by (simp only: div_mult_self2) simp
        then show ?thesis unfolding a l by simp
      qed
      moreover have "length bs \<le> 16" using l c by simp
      ultimately show ?thesis by simp
    next
      assume "(a, bs) \<in> set (page_chunks (address + chunk) (drop chunk bytes))"
      with "1.IH" [OF False chunk_def] show ?thesis by simp
    qed
  qed
qed

lemma page_chunks_cover:
  "concat (map (\<lambda>(a, bs). zip [a..<a + length bs] bs) (page_chunks address bytes)) =
     zip [address..<address + length bytes] bytes"
proof (induction address bytes rule: page_chunks.induct)
  case (1 address bytes)
  show ?case
  proof (cases "bytes = []")
    case True
    then show ?thesis by simp
  next
    case False
    define chunk where "chunk = min (length bytes) (16 - address mod 16)"
    have c: "chunk \<le> length bytes" by (simp add: chunk_def)
    have "zip [address..<address + length bytes] bytes =
            zip ([address..<address + chunk] @ [address + chunk..<address + length bytes])
                (take chunk bytes @ drop chunk bytes)"
      using c upt_add_eq_append [of address "address + chunk" "length bytes - chunk"] by simp
    also have "\<dots> = zip [address..<address + chunk] (take chunk bytes) @
                     zip [address + chunk..<address + length bytes] (drop chunk bytes)"
      using c by (intro zip_append) simp
    finally have z: "zip [address..<address + length bytes] bytes =
        zip [address..<address + chunk] (take chunk bytes) @
        zip [address + chunk..<address + length bytes] (drop chunk bytes)" .
    have l: "length (take chunk bytes) = chunk" using c by simp
    have d: "address + chunk + length (drop chunk bytes) = address + length bytes"
      using c by simp
    show ?thesis
      using "1.IH" [OF False chunk_def]
      by (subst page_chunks.simps) (simp add: False Let_def chunk_def [symmetric] z l d del: length_take length_drop)
  qed
qed

lemma page_chunks_example:
  assumes "length bs = 20"
  shows "page_chunks 10 bs = [(10, take 6 bs), (16, drop 6 bs)]"
proof -
  have 1: "bs \<noteq> []" "drop 6 bs \<noteq> []" using assms by auto
  show ?thesis
    apply (subst page_chunks.simps)
    apply (simp add: 1 assms Let_def)
    apply (subst page_chunks.simps)
    apply (simp add: 1 assms Let_def)
    done
qed

lemma decode_log: "tr = events_of its \<Longrightarrow> decode tr = Some its"
  by (simp add: decode_events_of)

lemma writeArray_traced:
  assumes "0 < len"
    and "writeArray (traced drv) address (Some buf) len ([], d) = Some (tr, d')"
  shows "\<exists>itss. decode tr = Some (concat itss) \<and>
           list_all2 (\<lambda>(a, bs) its. page_write_items a bs its)
             (page_chunks address (map buf [0..<len])) itss"
proof -
  from assms have "writeArray_loop (traced drv) buf address 0 len ([], d) = Some (tr, d')"
    by (simp add: writeArray_def)
  from writeArray_loop_traced [OF this] obtain itss d1 where
    itss: "list_all2 (\<lambda>(a, bs) its. page_write_items a bs its)
             (page_chunks address (map buf [0..<0 + len])) itss"
      "(tr, d') = ([] @ events_of (concat itss), d1)"
    by (elim exE conjE)
  from itss(2) have "decode tr = Some (concat itss)"
    by (simp add: decode_events_of)
  moreover from itss(1) have "list_all2 (\<lambda>(a, bs) its. page_write_items a bs its)
             (page_chunks address (map buf [0..<len])) itss"
    by (simp only: add_0)
  ultimately show ?thesis by (intro exI [of _ itss] conjI)
qed

section \<open>Waiting for the write cycle\<close>

lemma bit_step_script: "bit_step script_driver v (m # q) = (m, q)"
  by (simp add: bit_step_def script_driver_def)

lemma clock_bits_script:
  "length ms = length vs \<Longrightarrow> clock_bits script_driver vs (ms @ q) = (ms, q)"
proof (induction vs arbitrary: ms)
  case Nil
  then show ?case by simp
next
  case (Cons v vs)
  then obtain m ms' where ms: "ms = m # ms'" "length ms' = length vs"
    by (cases ms) auto
  with Cons.IH [of ms'] show ?case by (simp add: bit_step_script)
qed

lemma transferByte_script: "transferByte script_driver t (msb_bits r @ q) = (r, q)"
  by (simp add: transferByte_clock_bits clock_bits_script)

lemma msb_bits_0: "msb_bits 0 = replicate 8 False"
  by (simp add: msb_bits_def upt_rec eval_nat_numeral)

lemma script_cs [simp]: "cs_low script_driver q = q" "cs_high script_driver q = q"
    "delay_us script_driver n q = q"
  by (simp_all add: script_driver_def)

lemma readStatus_script:
  "frame script_driver [0x05, 0xFF] (status_script (s # ss) @ q) =
     ([0, s], status_script ss @ q)"
  using transferByte_script [of 5 0 "msb_bits s @ status_script ss @ q"]
  by (simp add: frame_def status_script_def transferByte_script msb_bits_0)

lemma status_read_events:
  "item_events (Frame [(0x05, 0), (0xFF, s)]) = events_of [status_read 0 s]"
  by (simp add: events_of_def status_read_def)

lemma wait_script:
  assumes "\<forall>s \<in> set ss. s AND WIP_MASK \<noteq> 0" and "s AND WIP_MASK = 0"
  shows "waitUntilWriteComplete (traced script_driver) (tr, status_script (ss @ [s]) @ q) =
           Some (tr @ events_of (busy_polls (map (Pair 0) ss) @ [status_read 0 s]),
                 q)"
  using assms(1)
proof (induction ss arbitrary: tr)
  case Nil
  have "status_script [] = []" by (simp add: status_script_def)
  then show ?case
    using assms(2)
    by (subst waitUntilWriteComplete.simps)
       (simp add: readStatus_frame frame_traced readStatus_script
          busy_polls_def status_read_events del: item_events.simps)
next
  case (Cons a ss)
  then have a: "a AND WIP_MASK \<noteq> 0" and rest: "\<forall>s \<in> set ss. s AND WIP_MASK \<noteq> 0"
    by simp_all
  have e: "events_of [status_read 0 a] @ [Delay 10] = events_of [status_read 0 a, Pause 10]"
    by (simp add: events_of_def)
  have "waitUntilWriteComplete (traced script_driver) (tr, status_script ((a # ss) @ [s]) @ q) =
        waitUntilWriteComplete (traced script_driver)
          (tr @ events_of [status_read 0 a, Pause 10], status_script (ss @ [s]) @ q)"
    using a
    by (subst waitUntilWriteComplete.simps)
       (simp add: readStatus_frame frame_traced readStatus_script status_read_events e
          del: item_events.simps)
  also have "\<dots> = Some ((tr @ events_of [status_read 0 a, Pause 10]) @
        events_of (busy_polls (map (Pair 0) ss) @ [status_read 0 s]), q)"
    by (rule Cons.IH [OF rest])
  also have "(tr @ events_of [status_read 0 a, Pause 10]) @
        events_of (busy_polls (map (Pair 0) ss) @ [status_read 0 s]) =
      tr @ events_of (busy_polls (map (Pair 0) (a # ss)) @ [status_read 0 s])"
    by (simp add: events_of_def busy_polls_def)
  finally show ?case .
qed

lemma exchange_echo: "fst (exchange echo_driver ts d) = ts"
  by (induction ts arbitrary: d) (simp_all add: split_beta transferByte_echo)

lemma readStatus_echo: "fst (readStatus echo_driver d) = 0xFF"
  using exchange_echo [of "[0x05, 0xFF]" "cs_low echo_driver d"]
  by (simp add: readStatus_frame frame_def split_beta del: exchange.simps)

lemma wait_echo_aux:
  assumes "waitUntilWriteComplete drv d = Some d'"
  shows "drv \<noteq> echo_driver"
proof (rule waitUntilWriteComplete.raw_induct
    [where P = "\<lambda>drv d d'. drv \<noteq> echo_driver", OF _ assms])
  fix wait and drv :: "bool driver" and d d'
  assume ih: "\<And>drv d d'. wait drv d = Some d' \<Longrightarrow> drv \<noteq> echo_driver"
    and st: "(case readStatus drv d of
      (status, d1) \<Rightarrow>
        if status AND WIP_MASK = 0 then Some d1
        else wait drv (delay_us drv 10 d1)) = Some d'"
  show "drv \<noteq> echo_driver"
  proof
    assume drv: "drv = echo_driver"
    with st readStatus_echo [of d]
    have "wait echo_driver (delay_us echo_driver 10 (snd (readStatus echo_driver d))) = Some d'"
      by (simp add: split_beta WIP_MASK_def)
    from ih [OF this] show False by simp
  qed
qed

lemma wait_echo: "waitUntilWriteComplete echo_driver d = None"
  using wait_echo_aux [of echo_driver d] by (cases "waitUntilWriteComplete echo_driver d") auto

lemma wait_log_decodes:
  assumes "waitUntilWriteComplete (traced drv) ([], d) = Some (tr, d')"
  shows "\<exists>its. decode tr = Some its \<and> wait_items its"
proof -
  from waitUntilWriteComplete_traced [OF assms] obtain its d1 where
    its: "wait_items its" "(tr, d') = ([] @ events_of its, d1)"
    by (elim exE conjE)
  from its(2) have "decode tr = Some its" by (simp add: decode_events_of)
  with its(1) show ?thesis by (intro exI [of _ its] conjI)
qed

lemma wait_script_example:
  "map_option (decode \<circ> fst)
     (waitUntilWriteComplete (traced script_driver) ([], status_script [0x01, 0x01, 0x00])) =
   Some (Some [status_read 0 1, Pause 10, status_read 0 1, Pause 10, status_read 0 0])"
  using wait_script [of "[1, 1]" 0 "[]" "[]"]
  by (simp add: WIP_MASK_def busy_polls_def decode_events_of)

text \<open>
  C7.  Whatever the driver, the log of a call of \<open>waitUntilWriteComplete\<close> that returned
  is: status reads (RDSR and one dummy byte) that showed bit 0 set, each followed by a
  delay of 10 microseconds, then one status read that showed bit 0 clear.  On the
  scripted stub that answers the status reads with bytes \<open>ss\<close>, all with bit 0 set,
  and then \<open>s\<close> with bit 0 clear, the call returns after exactly these reads, one per
  byte, and one delay per byte of \<open>ss\<close>; for the statuses \<open>0x01, 0x01, 0x00\<close> that is 3
  status reads and 2 delays.  On the echo stub, where every status read shows \<open>0xFF\<close>,
  the call never returns.
\<close>

theorem waitUntilWriteComplete_polling:
  "(waitUntilWriteComplete (traced drv) ([], d) = Some (tr, d') \<longrightarrow>
      (\<exists>its. decode tr = Some its \<and> wait_items its))
   \<and> ((\<forall>s \<in> set ss. s AND WIP_MASK \<noteq> 0) \<and> s AND WIP_MASK = 0 \<longrightarrow>
        waitUntilWriteComplete (traced script_driver) ([], status_script (ss @ [s]) @ q) =
          Some (events_of (busy_polls (map (Pair 0) ss) @ [status_read 0 s]), q))
   \<and> map_option (decode \<circ> fst)
        (waitUntilWriteComplete (traced script_driver) ([], status_script [0x01, 0x01, 0x00])) =
       Some (Some [status_read 0 1, Pause 10, status_read 0 1, Pause 10, status_read 0 0])
   \<and> waitUntilWriteComplete echo_driver e = None"
proof (intro conjI impI)
  assume "waitUntilWriteComplete (traced drv) ([], d) = Some (tr, d')"
  then show "\<exists>its. decode tr = Some its \<and> wait_items its"
    by (rule wait_log_decodes)
next
  assume "(\<forall>s \<in> set ss. s AND WIP_MASK \<noteq> 0) \<and> s AND WIP_MASK = 0"
  then have "\<forall>s \<in> set ss. s AND WIP_MASK \<noteq> 0" "s AND WIP_MASK = 0" by simp_all
  from wait_script [OF this, of "[]" q]
  show "waitUntilWriteComplete (traced script_driver) ([], status_script (ss @ [s]) @ q) =
          Some (events_of (busy_polls (map (Pair 0) ss) @ [status_read 0 s]), q)"
    by simp
next
  show "map_option (decode \<circ> fst)
        (waitUntilWriteComplete (traced script_driver) ([], status_script [0x01, 0x01, 0x00])) =
       Some (Some [status_read 0 1, Pause 10, status_read 0 1, Pause 10, status_read 0 0])"
    by (rule wait_script_example)
next
  show "waitUntilWriteComplete echo_driver e = None"
    by (rule wait_echo)
qed

text \<open>The statuses \<open>0x01, 0x01, 0x00\<close> on the scripted stub.\<close>

theorem waitUntilWriteComplete_polling_witness:
  "waitUntilWriteComplete (traced script_driver) ([], status_script [0x01, 0x01, 0x00]) =
     Some (events_of [status_read 0 1, Pause 10, status_read 0 1, Pause 10, status_read 0 0], [])
   \<and> (\<exists>its. decode (events_of
           [status_read 0 1, Pause 10, status_read 0 1, Pause 10, status_read 0 0]) = Some its
         \<and> wait_items its)"
proof -
  let ?log = "events_of [status_read 0 1, Pause 10, status_read 0 1, Pause 10, status_read 0 0]"
  note inst = waitUntilWriteComplete_polling
    [of script_driver "status_script [0x01, 0x01, 0x00]" ?log "[]" "[0x01, 0x01]" "0x00" "[]"]
  have run: "waitUntilWriteComplete (traced script_driver)
        ([], status_script [0x01, 0x01, 0x00]) = Some (?log, [])"
    using inst by (simp add: WIP_MASK_def busy_polls_def)
  from inst have "waitUntilWriteComplete (traced script_driver)
        ([], status_script [0x01, 0x01, 0x00]) = Some (?log, []) \<longrightarrow>
      (\<exists>its. decode ?log = Some its \<and> wait_items its)"
    by (rule conjunct1)
  from this run have "\<exists>its. decode ?log = Some its \<and> wait_items its"
    by (rule mp)
  with run show ?thesis by (intro conjI)
qed

section \<open>Invalid arguments\<close>

text \<open>
  C6.  A call with an invalid argument returns at once, with the driver state it was
  given: \<open>readBits\<close> returns 0 and \<open>writeBits\<close> returns when \<open>bitCount\<close> is 0 or more
  than 32; \<open>readArray\<close> and \<open>writeArray\<close> return when the length is 0 or the buffer
  is null, and \<open>readArray\<close> leaves the buffer as it is.  This holds for every driver
  and every state of it; on the counting stub it says that the log is the one before
  the call, so that no chip-select change, no transfer and no delay took place.
\<close>

theorem invalid_arguments_no_op:
  "(bitCount = 0 \<or> 32 < bitCount \<longrightarrow>
      readBits drv a off bitCount d = Some (Inr (0, d)) \<and>
      writeBits drv a off bitCount v d = Some (Inr d) \<and>
      readBits (traced drv) a off bitCount (tr, d) = Some (Inr (0, (tr, d))) \<and>
      writeBits (traced drv) a off bitCount v (tr, d) = Some (Inr (tr, d)))
   \<and> (len = 0 \<or> buffer = None \<longrightarrow>
      readArray drv a buffer len d = (buffer, d) \<and>
      writeArray drv a buffer len d = Some d \<and>
      readArray (traced drv) a buffer len (tr, d) = (buffer, (tr, d)) \<and>
      writeArray (traced drv) a buffer len (tr, d) = Some (tr, d))"
  by (auto simp: readBits_def writeBits_def readArray_def writeArray_def split: option.splits)

text \<open>Calls on the chip with the counting stub in between, from an empty log.\<close>

theorem invalid_arguments_no_op_witness:
  "readBits (traced chip_driver) 7 3 0 ([], fresh_chip 5) = Some (Inr (0, ([], fresh_chip 5)))
   \<and> writeBits (traced chip_driver) 7 3 33 0xFFFF ([], fresh_chip 5) = Some (Inr ([], fresh_chip 5))
   \<and> readArray (traced chip_driver) 7 None 4 ([], fresh_chip 5) = (None, ([], fresh_chip 5))
   \<and> writeArray (traced chip_driver) 7 (Some of_nat) 0 ([], fresh_chip 5) = Some ([], fresh_chip 5)"
  using invalid_arguments_no_op [of 0 chip_driver 7 3 "fresh_chip 5" "0xFFFF" "[]" 4 None]
        invalid_arguments_no_op [of 33 chip_driver 7 3 "fresh_chip 5" "0xFFFF" "[]" 0 "Some of_nat"]
  by simp

section \<open>The bit loops\<close>

lemma bits_step:
  fixes off n br :: u32
  assumes "off \<le> 7" "n \<le> 32" "br < n"
  defines "s \<equiv> (if br = 0 then off else 0)"
  defines "c \<equiv> min (8 - s) (n - br)"
  shows "unat s \<le> 7"
    and "unat c = min (8 - unat s) (unat n - unat br)"
    and "unat (br + c) = unat br + unat c"
    and "\<not> 32 \<le> s" and "\<not> 32 \<le> c"
    and "br + c \<le> n" and "br + c \<noteq> 0" and "0 < unat c"
proof -
  have o: "unat off \<le> 7" using assms(1) by (simp add: word_le_nat_alt)
  have n: "unat n \<le> 32" using assms(2) by (simp add: word_le_nat_alt)
  have b: "unat br < unat n" using assms(3) by (simp add: word_less_nat_alt)
  show s: "unat s \<le> 7" using o by (simp add: s_def)
  have s8: "unat (8 - s) = 8 - unat s"
    using s by (subst unat_sub) (simp_all add: word_le_nat_alt)
  have nb: "unat (n - br) = unat n - unat br"
    using b by (subst unat_sub) (simp_all add: word_le_nat_alt)
  show c: "unat c = min (8 - unat s) (unat n - unat br)"
    unfolding c_def by (simp add: min_def word_le_nat_alt s8 nb)
  show bc: "unat (br + c) = unat br + unat c"
    using c b n by (subst unat_add_lem [THEN iffD1]) simp_all
  show "\<not> 32 \<le> s" using s by (simp add: word_le_nat_alt)
  show "\<not> 32 \<le> c" using c by (simp add: word_le_nat_alt)
  show "br + c \<le> n" using bc c b by (simp add: word_le_nat_alt)
  show pos: "0 < unat c" using c s b by simp
  show "br + c \<noteq> 0" using bc pos by (metis add_is_0 less_numeral_extra(3) unat_0)
qed

lemma readBits_loop_unfold:
  "readBits_loop drv off n res br a d =
     (if br < n then
        let s = bit_start off br; c = bit_count off n br in
        if 32 \<le> s \<or> 32 \<le> c then Some (Inl Undefined_Shift)
        else readBits_loop drv off n
               (res OR push_bit (unat br) (ucast (cut_out (fst (readByte drv a d)) s c)))
               (br + c) (a + 1) (snd (readByte drv a d))
      else Some (Inr (res, d)))"
  by (subst readBits_loop.simps)
     (simp add: Let_def split_beta bit_start_def bit_count_def byte_mask_def cut_out_def)

lemma writeBits_loop_unfold:
  "writeBits_loop drv off n v bw a d =
     (if bw < n then
        let s = bit_start off bw; c = bit_count off n bw in
        if 32 \<le> s \<or> 32 \<le> c then Some (Inl Undefined_Shift)
        else
          case writeByte drv a (splice (fst (readByte drv a d)) s c (drop_bit (unat bw) v))
                 (snd (readByte drv a d)) of
            None \<Rightarrow> None
          | Some d2 \<Rightarrow> writeBits_loop drv off n v (bw + c) (a + 1) d2
      else Some (Inr d))"
  by (subst writeBits_loop.simps)
     (simp add: Let_def split_beta bit_start_def bit_count_def byte_mask_def splice_def
        split: option.splits)

lemma rounds_left_step:
  fixes off n br :: u32
  assumes "off \<le> 7" "n \<le> 32" "br < n"
  shows "Suc (rounds_left n (br + bit_count off n br)) \<le> rounds_left n br"
proof -
  note st = bits_step [OF assms]
  let ?s = "if br = 0 then off else 0"
  let ?c = "min (8 - ?s) (n - br)"
  have c: "bit_count off n br = ?c" by (simp add: bit_count_def bit_start_def)
  have n: "unat n \<le> 32" using assms(2) by (simp add: word_le_nat_alt)
  have b: "unat br < unat n" using assms(3) by (simp add: word_less_nat_alt)
  have r: "rounds_left n (br + ?c) = (unat n - (unat br + unat ?c) + 7) div 8"
    using st(7) st(3) by (simp add: rounds_left_def)
  show ?thesis
  proof (cases "br = 0")
    case True
    have "unat n - (unat br + unat ?c) + 7 < 40" using n st(8) by linarith
    then have "(unat n - (unat br + unat ?c) + 7) div 8 < 5" by simp
    then show ?thesis unfolding c r using True by (simp add: rounds_left_def)
  next
    case False
    then have cc: "unat (min 8 (n - br)) = min 8 (unat n - unat br)" using st(2) by simp
    define x where "x = unat n - unat br"
    have x: "0 < x" using b by (simp add: x_def)
    have "Suc ((x - min 8 x + 7) div 8) \<le> (x + 7) div 8"
    proof (cases "8 \<le> x")
      case True
      then have "x - min 8 x + 7 = (x - 1)" by simp
      moreover have "x + 7 = (x - 1) + 8" using x by simp
      ultimately show ?thesis by simp
    next
      case False
      then have "x - min 8 x + 7 = 7" by simp
      moreover have "8 \<le> x + 7" using x by simp
      then have "1 \<le> (x + 7) div 8" by (simp add: div_greater_zero_iff)
      ultimately show ?thesis by simp
    qed
    moreover have "x - min 8 x = unat n - (unat br + min 8 x)" by (simp add: x_def)
    ultimately show ?thesis
      unfolding c r using False b by (simp add: rounds_left_def cc x_def)
  qed
qed

lemma readBits_loop_traced_aux:
  assumes "readBits_loop drv0 off n res br a td = Some y"
  shows "\<forall>drv tr d r td'. drv0 = traced drv \<and> td = (tr, d) \<and> y = Inr (r, td') \<longrightarrow>
     (\<exists>itss d'. td' = (tr @ events_of (concat itss), d') \<and>
        list_all2 read_items [a..<a + length itss] itss \<and>
        (off \<le> 7 \<and> n \<le> 32 \<longrightarrow> length itss \<le> rounds_left n br))"
proof (rule readBits_loop.raw_induct [where P = "\<lambda>drv0 off n res br a td y.
     \<forall>drv tr d r td'. drv0 = traced drv \<and> td = (tr, d) \<and> y = Inr (r, td') \<longrightarrow>
     (\<exists>itss d'. td' = (tr @ events_of (concat itss), d') \<and>
        list_all2 read_items [a..<a + length itss] itss \<and>
        (off \<le> 7 \<and> n \<le> 32 \<longrightarrow> length itss \<le> rounds_left n br))", OF _ assms])
  fix loop :: "(event list \<times> 'a) driver \<Rightarrow> u32 \<Rightarrow> u32 \<Rightarrow> u32 \<Rightarrow> u32 \<Rightarrow> nat \<Rightarrow>
      event list \<times> 'a \<Rightarrow> (fault + u32 \<times> event list \<times> 'a) option"
    and drv0 :: "(event list \<times> 'a) driver" and off n res br :: u32 and a :: nat
    and td y
  assume ih: "\<And>drv0 off n res br a td y. loop drv0 off n res br a td = Some y \<Longrightarrow>
     \<forall>drv tr d r td'. drv0 = traced drv \<and> td = (tr, d) \<and> y = Inr (r, td') \<longrightarrow>
     (\<exists>itss d'. td' = (tr @ events_of (concat itss), d') \<and>
        list_all2 read_items [a..<a + length itss] itss \<and>
        (off \<le> 7 \<and> n \<le> 32 \<longrightarrow> length itss \<le> rounds_left n br))"
  assume eq: "(if br < n
      then case readByte drv0 a td of
           (byte, d1) \<Rightarrow>
             let start_bit = if br = 0 then off else 0;
                 bits_in_byte = min (8 - start_bit) (n - br)
             in if 32 \<le> start_bit \<or> 32 \<le> bits_in_byte
                then Some (Inl Undefined_Shift)
                else let mask =
                           ucast
                            (push_bit (unat start_bit)
                              (push_bit (unat bits_in_byte) 1 - 1));
                         val = drop_bit (unat start_bit) (byte AND mask);
                         result' =
                           res OR push_bit (unat br) (ucast val)
                     in loop drv0 off n result'
                         (br + bits_in_byte) (a + 1) d1
      else Some (Inr (res, td))) =
     Some y"
  show "\<forall>drv tr d r td'. drv0 = traced drv \<and> td = (tr, d) \<and> y = Inr (r, td') \<longrightarrow>
     (\<exists>itss d'. td' = (tr @ events_of (concat itss), d') \<and>
        list_all2 read_items [a..<a + length itss] itss \<and>
        (off \<le> 7 \<and> n \<le> 32 \<longrightarrow> length itss \<le> rounds_left n br))"
  proof (intro allI impI, elim conjE)
    fix drv tr d r td'
    assume drv0: "drv0 = traced drv" and td: "td = (tr, d)" and y: "y = Inr (r, td')"
    show "\<exists>itss d'. td' = (tr @ events_of (concat itss), d') \<and>
        list_all2 read_items [a..<a + length itss] itss \<and>
        (off \<le> 7 \<and> n \<le> 32 \<longrightarrow> length itss \<le> rounds_left n br)"
    proof (cases "br < n")
      case False
      with eq y td have "td' = (tr @ events_of (concat []), d)" by simp
      then show ?thesis by (intro exI [of _ "[]"] exI [of _ d]) simp
    next
      case True
      obtain its where its: "read_items a its"
          "readByte (traced drv) a (tr, d) =
             (fst (readByte drv a d), (tr @ events_of its, snd (readByte drv a d)))"
        using readByte_traced [of a drv tr d] by (elim exE conjE)
      define c where "c = bit_count off n br"
      obtain res' where
        l: "loop (traced drv) off n res' (br + c) (a + 1)
              (tr @ events_of its, snd (readByte drv a d)) = Some y"
        using eq True y
        by (simp add: drv0 td its(2) Let_def c_def bit_count_def bit_start_def
              split: if_splits)
      from ih [OF l, rule_format, OF conjI [OF refl conjI [OF refl y]]]
      obtain itss d' where itss: "td' = ((tr @ events_of its) @ events_of (concat itss), d')"
          "list_all2 read_items [a + 1..<a + 1 + length itss] itss"
          "off \<le> 7 \<and> n \<le> 32 \<longrightarrow> length itss \<le> rounds_left n (br + c)"
        by (elim exE conjE)
      have "td' = (tr @ events_of (concat (its # itss)), d')"
        using itss(1) by simp
      moreover have "list_all2 read_items [a..<a + length (its # itss)] (its # itss)"
      proof -
        have "[a..<a + length (its # itss)] = a # [a + 1..<a + 1 + length itss]"
          by (subst upt_rec) simp
        with its(1) itss(2) show ?thesis by (simp only: list_all2_Cons)
      qed
      moreover have "off \<le> 7 \<and> n \<le> 32 \<longrightarrow> length (its # itss) \<le> rounds_left n br"
      proof
        assume p: "off \<le> 7 \<and> n \<le> 32"
        with itss(3) have "length itss \<le> rounds_left n (br + c)" by simp
        moreover from p True have "Suc (rounds_left n (br + c)) \<le> rounds_left n br"
          unfolding c_def by (intro rounds_left_step) simp_all
        ultimately show "length (its # itss) \<le> rounds_left n br" by simp
      qed
      ultimately show ?thesis
        by (intro exI [of _ "its # itss"] exI [of _ d'] conjI)
    qed
  qed
qed

lemma rmw_itemsI:
  assumes "read_items a its" "page_write_items a [v] its'"
  shows "rmw_items a (its @ its')"
proof -
  from assms(1) obtain r where r: "its = [r]"
    by (auto simp: read_items_def split: list.splits)
  from assms(2) obtain w f rest where w: "its' = w # f # rest"
    by (auto simp: page_write_items_def split: list.splits)
  from assms(2) w
  have f: "sent [f] = [[0x02, of_nat (a div 256 mod 256), of_nat (a mod 256), v]]"
    by (simp add: page_write_items_def)
  show ?thesis
    using assms by (simp add: r w rmw_items_def f)
qed

lemma writeByte_traced:
  assumes "writeByte (traced drv) a v (tr, d) = Some td'"
  shows "\<exists>its d'. page_write_items a [v] its \<and> td' = (tr @ events_of its, d') \<and>
           writeByte drv a v d = Some d'"
  using write_cycle_traced [of drv a "[v]" tr d td'] assms
  by (simp add: writeByte_cycle)

lemma writeBits_loop_traced_aux:
  assumes "writeBits_loop drv0 off n v bw a td = Some y"
  shows "\<forall>drv tr d td'. drv0 = traced drv \<and> td = (tr, d) \<and> y = Inr td' \<longrightarrow>
     (\<exists>itss d'. td' = (tr @ events_of (concat itss), d') \<and>
        list_all2 rmw_items [a..<a + length itss] itss \<and>
        (off \<le> 7 \<and> n \<le> 32 \<longrightarrow> length itss \<le> rounds_left n bw))"
proof (rule writeBits_loop.raw_induct [where P = "\<lambda>drv0 off n v bw a td y.
     \<forall>drv tr d td'. drv0 = traced drv \<and> td = (tr, d) \<and> y = Inr td' \<longrightarrow>
     (\<exists>itss d'. td' = (tr @ events_of (concat itss), d') \<and>
        list_all2 rmw_items [a..<a + length itss] itss \<and>
        (off \<le> 7 \<and> n \<le> 32 \<longrightarrow> length itss \<le> rounds_left n bw))", OF _ assms])
  fix loop :: "(event list \<times> 'a) driver \<Rightarrow> u32 \<Rightarrow> u32 \<Rightarrow> u32 \<Rightarrow> u32 \<Rightarrow> nat \<Rightarrow>
      event list \<times> 'a \<Rightarrow> (fault + event list \<times> 'a) option"
    and drv0 :: "(event list \<times> 'a) driver" and off n v bw :: u32 and a :: nat
    and td y
  assume ih: "\<And>drv0 off n v bw a td y. loop drv0 off n v bw a td = Some y \<Longrightarrow>
     \<forall>drv tr d td'. drv0 = traced drv \<and> td = (tr, d) \<and> y = Inr td' \<longrightarrow>
     (\<exists>itss d'. td' = (tr @ events_of (concat itss), d') \<and>
        list_all2 rmw_items [a..<a + length itss] itss \<and>
        (off \<le> 7 \<and> n \<le> 32 \<longrightarrow> length itss \<le> rounds_left n bw))"
  assume eq: "(if bw < n
      then case readByte drv0 a td of
           (byte, d1) \<Rightarrow>
             let start_bit = if bw = 0 then off else 0;
                 bits_in_byte = min (8 - start_bit) (n - bw)
             in if 32 \<le> start_bit \<or> 32 \<le> bits_in_byte
                then Some (Inl Undefined_Shift)
                else let mask =
                           ucast
                            (push_bit (unat start_bit)
                              (push_bit (unat bits_in_byte) 1 - 1));
                         byte' =
                           ucast
                            (ucast byte AND NOT (ucast mask) OR
                             push_bit (unat start_bit)
                              (drop_bit (unat bw) v) AND
                             ucast mask)
                     in writeByte drv0 a byte' d1 \<bind>
                        loop drv0 off n v (bw + bits_in_byte) (a + 1)
      else Some (Inr td)) =
     Some y"
  show "\<forall>drv tr d td'. drv0 = traced drv \<and> td = (tr, d) \<and> y = Inr td' \<longrightarrow>
     (\<exists>itss d'. td' = (tr @ events_of (concat itss), d') \<and>
        list_all2 rmw_items [a..<a + length itss] itss \<and>
        (off \<le> 7 \<and> n \<le> 32 \<longrightarrow> length itss \<le> rounds_left n bw))"
  proof (intro allI impI, elim conjE)
    fix drv tr d td'
    assume drv0: "drv0 = traced drv" and td: "td = (tr, d)" and y: "y = Inr td'"
    show "\<exists>itss d'. td' = (tr @ events_of (concat itss), d') \<and>
        list_all2 rmw_items [a..<a + length itss] itss \<and>
        (off \<le> 7 \<and> n \<le> 32 \<longrightarrow> length itss \<le> rounds_left n bw)"
    proof (cases "bw < n")
      case False
      with eq y td have "td' = (tr @ events_of (concat []), d)" by simp
      then show ?thesis by (intro exI [of _ "[]"] exI [of _ d]) simp
    next
      case True
      obtain its where its: "read_items a its"
          "readByte (traced drv) a (tr, d) =
             (fst (readByte drv a d), (tr @ events_of its, snd (readByte drv a d)))"
        using readByte_traced [of a drv tr d] by (elim exE conjE)
      define c where "c = bit_count off n bw"
      obtain b' td2 where
        w: "writeByte (traced drv) a b' (tr @ events_of its, snd (readByte drv a d)) = Some td2"
        and l: "loop (traced drv) off n v (bw + c) (a + 1) td2 = Some y"
        using eq True y
        by (simp add: drv0 td its(2) Let_def c_def bit_count_def bit_start_def
              split: if_splits Option.bind_splits)
      from writeByte_traced [OF w] obtain its' d2 where
        its': "page_write_items a [b'] its'" "td2 = ((tr @ events_of its) @ events_of its', d2)"
        by (elim exE conjE)
      from ih [OF l [unfolded its'(2)], rule_format, OF conjI [OF refl conjI [OF refl y]]]
      obtain itss d' where
        itss: "td' = (((tr @ events_of its) @ events_of its') @ events_of (concat itss), d')"
          "list_all2 rmw_items [a + 1..<a + 1 + length itss] itss"
          "off \<le> 7 \<and> n \<le> 32 \<longrightarrow> length itss \<le> rounds_left n (bw + c)"
        by (elim exE conjE)
      let ?g = "its @ its'"
      have "td' = (tr @ events_of (concat (?g # itss)), d')"
        using itss(1) by simp
      moreover have "list_all2 rmw_items [a..<a + length (?g # itss)] (?g # itss)"
      proof -
        have "[a..<a + length (?g # itss)] = a # [a + 1..<a + 1 + length itss]"
          by (subst upt_rec) simp
        with rmw_itemsI [OF its(1) its'(1)] itss(2) show ?thesis
          by (simp only: list_all2_Cons)
      qed
      moreover have "off \<le> 7 \<and> n \<le> 32 \<longrightarrow> length (?g # itss) \<le> rounds_left n bw"
      proof
        assume p: "off \<le> 7 \<and> n \<le> 32"
        with itss(3) have "length itss \<le> rounds_left n (bw + c)" by simp
        moreover from p True have "Suc (rounds_left n (bw + c)) \<le> rounds_left n bw"
          unfolding c_def by (intro rounds_left_step) simp_all
        ultimately show "length (?g # itss) \<le> rounds_left n bw" by simp
      qed
      ultimately show ?thesis
        by (intro exI [of _ "?g # itss"] exI [of _ d'] conjI)
    qed
  qed
qed

section \<open>Write enable before every write\<close>

lemma sent_append [simp]: "sent (its @ its') = sent its @ sent its'"
  by (induction its rule: sent.induct) simp_all

lemma write_enabled_weaken: "write_enabled [] fs \<Longrightarrow> write_enabled p fs"
  by (cases fs) simp_all

lemma write_enabled_append:
  "write_enabled p fs \<Longrightarrow> write_enabled [] gs \<Longrightarrow> write_enabled p (fs @ gs)"
  by (induction fs arbitrary: p) (simp_all add: write_enabled_weaken)

lemma sent_status_read: "is_status_read it \<Longrightarrow> sent (it # its) = [0x05, 0xFF] # sent its"
  by (cases it) (simp_all add: is_status_read_def)

lemma wait_items_enabled: "wait_items its \<Longrightarrow> write_enabled p (sent its)"
proof (induction its arbitrary: p rule: wait_items.induct)
  case 1
  then show ?case by simp
next
  case (2 it)
  then show ?case by (simp add: sent_status_read is_write_def)
next
  case (3 it q its)
  then show ?case by (simp add: sent_status_read is_write_def)
qed

lemma sent_single: "sent [w] = [f] \<Longrightarrow> sent (w # its) = f # sent its"
  by (cases w) simp_all

lemma page_write_items_enabled:
  assumes "page_write_items a bs its"
  shows "write_enabled [] (sent its)"
proof -
  from assms obtain w f rest where its: "its = w # f # rest"
    and w: "sent [w] = [[0x06]]"
    and f: "sent [f] = [0x02 # of_nat (a div 256 mod 256) # of_nat (a mod 256) # bs]"
    and r: "wait_items rest"
    by (auto simp: page_write_items_def split: list.splits)
  show ?thesis
    using wait_items_enabled [OF r]
    by (simp add: its sent_single [OF w] sent_single [OF f] is_write_def)
qed

lemma read_items_enabled:
  assumes "read_items a its"
  shows "write_enabled [] (sent its)"
proof -
  from assms obtain f where its: "its = [f]"
    and f: "sent [f] = [[0x03, of_nat (a div 256 mod 256), of_nat (a mod 256), 0xFF]]"
    by (auto simp: read_items_def split: list.splits)
  show ?thesis by (simp add: its f is_write_def)
qed

lemma rmw_items_enabled:
  assumes "rmw_items a its"
  shows "write_enabled [] (sent its)"
proof -
  from assms obtain r w f rest where its: "its = [r] @ (w # f # rest)"
    and r: "read_items a [r]"
    and p: "page_write_items a (drop 3 (concat (sent [f]))) (w # f # rest)"
    by (auto simp: rmw_items_def split: list.splits)
  show ?thesis
    unfolding its sent_append
    by (intro write_enabled_append read_items_enabled [OF r] page_write_items_enabled [OF p])
qed

lemma concat_enabled:
  "list_all2 (\<lambda>x its. write_enabled [] (sent its)) xs itss \<Longrightarrow>
     write_enabled [] (sent (concat itss))"
  by (induction xs itss rule: list_all2_induct) (simp_all add: write_enabled_append)

lemma chunks_enabled:
  assumes "list_all2 (\<lambda>(a, bs) its. page_write_items a bs its) cs itss"
  shows "write_enabled [] (sent (concat itss))"
proof (rule concat_enabled)
  show "list_all2 (\<lambda>x its. write_enabled [] (sent its)) cs itss"
    by (rule list_all2_mono [OF assms]) (auto intro: page_write_items_enabled)
qed

lemma reads_enabled:
  assumes "list_all2 read_items xs itss"
  shows "write_enabled [] (sent (concat itss))"
proof (rule concat_enabled)
  show "list_all2 (\<lambda>x its. write_enabled [] (sent its)) xs itss"
    by (rule list_all2_mono [OF assms]) (auto intro: read_items_enabled)
qed

lemma rmws_enabled:
  assumes "list_all2 rmw_items xs itss"
  shows "write_enabled [] (sent (concat itss))"
proof (rule concat_enabled)
  show "list_all2 (\<lambda>x its. write_enabled [] (sent its)) xs itss"
    by (rule list_all2_mono [OF assms]) (auto intro: rmw_items_enabled)
qed

lemma readBits_traced:
  assumes "readBits (traced drv) a off n (tr, d) = Some (Inr (r, td'))"
  shows "\<exists>itss d'. td' = (tr @ events_of (concat itss), d') \<and>
           list_all2 read_items [a..<a + length itss] itss \<and>
           (off \<le> 7 \<longrightarrow> length itss \<le> 5)"
proof (cases "n = 0 \<or> 32 < n")
  case True
  with assms have "td' = (tr @ events_of (concat []), d)"
    by (simp add: readBits_def)
  then show ?thesis by (intro exI [of _ "[]"] exI [of _ d]) simp
next
  case False
  with assms have l: "readBits_loop (traced drv) off n 0 0 a (tr, d) = Some (Inr (r, td'))"
    by (simp add: readBits_def)
  from False have n: "n \<le> 32" by (simp add: not_less)
  from readBits_loop_traced_aux [OF l, rule_format, OF conjI [OF refl conjI [OF refl refl]]]
  obtain itss d' where itss: "td' = (tr @ events_of (concat itss), d')"
      "list_all2 read_items [a..<a + length itss] itss"
      "off \<le> 7 \<and> n \<le> 32 \<longrightarrow> length itss \<le> rounds_left n 0"
    by (elim exE conjE)
  from itss(3) n have "off \<le> 7 \<longrightarrow> length itss \<le> 5"
    by (simp add: rounds_left_def)
  with itss(1,2) show ?thesis by (intro exI [of _ itss] exI [of _ d'] conjI)
qed

lemma writeBits_traced:
  assumes "writeBits (traced drv) a off n v (tr, d) = Some (Inr td')"
  shows "\<exists>itss d'. td' = (tr @ events_of (concat itss), d') \<and>
           list_all2 rmw_items [a..<a + length itss] itss \<and>
           (off \<le> 7 \<longrightarrow> length itss \<le> 5)"
proof (cases "n = 0 \<or> 32 < n")
  case True
  with assms have "td' = (tr @ events_of (concat []), d)"
    by (simp add: writeBits_def)
  then show ?thesis by (intro exI [of _ "[]"] exI [of _ d]) simp
next
  case False
  with assms have l: "writeBits_loop (traced drv) off n v 0 a (tr, d) = Some (Inr td')"
    by (simp add: writeBits_def)
  from False have n: "n \<le> 32" by (simp add: not_less)
  from writeBits_loop_traced_aux [OF l, rule_format, OF conjI [OF refl conjI [OF refl refl]]]
  obtain itss d' where itss: "td' = (tr @ events_of (concat itss), d')"
      "list_all2 rmw_items [a..<a + length itss] itss"
      "off \<le> 7 \<and> n \<le> 32 \<longrightarrow> length itss \<le> rounds_left n 0"
    by (elim exE conjE)
  from itss(3) n have "off \<le> 7 \<longrightarrow> length itss \<le> 5"
    by (simp add: rounds_left_def)
  with itss(1,2) show ?thesis by (intro exI [of _ itss] exI [of _ d'] conjI)
qed

lemma readArray_traced:
  "\<exists>its. write_enabled [] (sent its) \<and>
     snd (readArray (traced drv) a buffer len (tr, d)) =
       (tr @ events_of its, snd (readArray drv a buffer len d))"
proof (cases "buffer = None \<or> len = 0")
  case True
  then have "snd (readArray (traced drv) a buffer len (tr, d)) =
       (tr @ events_of [], snd (readArray drv a buffer len d))"
    by (auto simp: readArray_def split: option.splits)
  then show ?thesis by (intro exI [of _ "[]"] conjI) simp_all
next
  case False
  then obtain buf where buf: "buffer = Some buf" and len: "len \<noteq> 0" by auto
  let ?ts = "[opcode_byte READ, address_high a, address_low a] @ replicate len 0xFF"
  let ?it = "Frame (zip ?ts (fst (frame drv ?ts d)))"
  have "snd (readArray (traced drv) a buffer len (tr, d)) =
       (tr @ events_of [?it], snd (readArray drv a buffer len d))"
    using len by (simp add: buf readArray_frame frame_traced split_beta events_of_def)
  moreover have "write_enabled [] (sent [?it])"
    by (simp add: is_write_def)
  ultimately show ?thesis by (intro exI [of _ "[?it]"] conjI)
qed

lemma perform_traced:
  assumes "perform (traced drv) opn (tr, d) = Some (Inr td')"
  shows "\<exists>its d'. td' = (tr @ events_of its, d') \<and> write_enabled [] (sent its)"
proof (cases opn)
  case (ReadByte a)
  obtain its where its: "read_items a its"
      "readByte (traced drv) a (tr, d) =
         (fst (readByte drv a d), (tr @ events_of its, snd (readByte drv a d)))"
    using readByte_traced [of a drv tr d] by (elim exE conjE)
  from assms have "td' = (tr @ events_of its, snd (readByte drv a d))"
    by (simp add: ReadByte its(2))
  with read_items_enabled [OF its(1)] show ?thesis
    by (intro exI [of _ its] exI [of _ "snd (readByte drv a d)"] conjI)
next
  case (WriteByte a v)
  with assms have "writeByte (traced drv) a v (tr, d) = Some td'" by auto
  from writeByte_traced [OF this] obtain its d' where
    its: "page_write_items a [v] its" "td' = (tr @ events_of its, d')"
    by (elim exE conjE)
  with page_write_items_enabled [OF its(1)] show ?thesis
    by (intro exI [of _ its] exI [of _ d'] conjI)
next
  case (ReadArray a buf n)
  obtain its where its: "write_enabled [] (sent its)"
      "snd (readArray (traced drv) a buf n (tr, d)) =
         (tr @ events_of its, snd (readArray drv a buf n d))"
    using readArray_traced [of drv a buf n tr d] by (elim exE conjE)
  from assms have "td' = (tr @ events_of its, snd (readArray drv a buf n d))"
    by (simp add: ReadArray its(2))
  with its(1) show ?thesis
    by (intro exI [of _ its] exI [of _ "snd (readArray drv a buf n d)"] conjI)
next
  case (WriteArray a buffer n)
  show ?thesis
  proof (cases "buffer = None \<or> n = 0")
    case True
    with assms WriteArray have "td' = (tr @ events_of [], d)"
      by (auto simp: writeArray_def split: option.splits)
    then show ?thesis by (intro exI [of _ "[]"] exI [of _ d] conjI) simp_all
  next
    case False
    then obtain buf where buf: "buffer = Some buf" and n: "n \<noteq> 0" by auto
    with assms WriteArray
    have "writeArray_loop (traced drv) buf a 0 n (tr, d) = Some td'"
      by (auto simp: writeArray_def)
    from writeArray_loop_traced [OF this] obtain itss d' where
      itss: "list_all2 (\<lambda>(a, bs) its. page_write_items a bs its)
               (page_chunks a (map buf [0..<0 + n])) itss"
        "td' = (tr @ events_of (concat itss), d')"
      by (elim exE conjE)
    from chunks_enabled [OF itss(1)] itss(2) show ?thesis
      by (intro exI [of _ "concat itss"] exI [of _ d'] conjI)
  qed
next
  case (ReadBit a b)
  with assms obtain z where z: "readBits (traced drv) a b 1 (tr, d) = Some z"
      "map_sum id snd (map_sum id (\<lambda>(r, y). (r \<noteq> 0, y)) z) = Inr td'"
    by (auto simp: readBit_def)
  from z(2) obtain r where "z = Inr (r, td')" by (cases z) auto
  with z(1) have "readBits (traced drv) a b 1 (tr, d) = Some (Inr (r, td'))" by simp
  from readBits_traced [OF this] obtain itss d' where
    itss: "td' = (tr @ events_of (concat itss), d')"
      "list_all2 read_items [a..<a + length itss] itss"
    by (elim exE conjE)
  from reads_enabled [OF itss(2)] itss(1) show ?thesis
    by (intro exI [of _ "concat itss"] exI [of _ d'] conjI)
next
  case (WriteBit a b v)
  with assms have "writeBits (traced drv) a b 1 (if v then 1 else 0) (tr, d) = Some (Inr td')"
    by (simp add: writeBit_def)
  from writeBits_traced [OF this] obtain itss d' where
    itss: "td' = (tr @ events_of (concat itss), d')"
      "list_all2 rmw_items [a..<a + length itss] itss"
    by (elim exE conjE)
  from rmws_enabled [OF itss(2)] itss(1) show ?thesis
    by (intro exI [of _ "concat itss"] exI [of _ d'] conjI)
next
  case (ReadBits a off n)
  with assms obtain z where z: "readBits (traced drv) a off n (tr, d) = Some z"
      "map_sum id snd z = Inr td'"
    by auto
  from z(2) obtain r where "z = Inr (r, td')" by (cases z) auto
  with z(1) have "readBits (traced drv) a off n (tr, d) = Some (Inr (r, td'))" by simp
  from readBits_traced [OF this] obtain itss d' where
    itss: "td' = (tr @ events_of (concat itss), d')"
      "list_all2 read_items [a..<a + length itss] itss"
    by (elim exE conjE)
  from reads_enabled [OF itss(2)] itss(1) show ?thesis
    by (intro exI [of _ "concat itss"] exI [of _ d'] conjI)
next
  case (WriteBits a off n v)
  with assms have "writeBits (traced drv) a off n v (tr, d) = Some (Inr td')"
    by simp
  from writeBits_traced [OF this] obtain itss d' where
    itss: "td' = (tr @ events_of (concat itss), d')"
      "list_all2 rmw_items [a..<a + length itss] itss"
    by (elim exE conjE)
  from rmws_enabled [OF itss(2)] itss(1) show ?thesis
    by (intro exI [of _ "concat itss"] exI [of _ d'] conjI)
qed

lemma perform_all_traced:
  "perform_all (traced drv) ops (tr, d) = Some (Inr td') \<Longrightarrow>
     \<exists>its d'. td' = (tr @ events_of its, d') \<and> write_enabled [] (sent its)"
proof (induction ops arbitrary: tr d)
  case Nil
  then have "td' = (tr @ events_of [], d)" by simp
  then show ?case by (intro exI [of _ "[]"] exI [of _ d] conjI) simp_all
next
  case (Cons opn ops)
  from Cons.prems obtain td1 where
    p: "perform (traced drv) opn (tr, d) = Some (Inr td1)"
    and r: "perform_all (traced drv) ops td1 = Some (Inr td')"
    by (auto split: option.splits sum.splits)
  from perform_traced [OF p] obtain its d1 where
    its: "td1 = (tr @ events_of its, d1)" "write_enabled [] (sent its)"
    by (elim exE conjE)
  from Cons.IH [OF r [unfolded its(1)]] obtain its' d' where
    its': "td' = ((tr @ events_of its) @ events_of its', d')" "write_enabled [] (sent its')"
    by (elim exE conjE)
  have "td' = (tr @ events_of (its @ its'), d')" using its'(1) by simp
  moreover have "write_enabled [] (sent (its @ its'))"
    using its(2) its'(2) by (simp add: write_enabled_append)
  ultimately show ?case by (intro exI [of _ "its @ its'"] exI [of _ d'] conjI)
qed

lemma writeByte_log:
  assumes "writeByte (traced drv) a v ([], d) = Some (tr, d')"
  shows "\<exists>its. decode tr = Some its \<and> page_write_items a [v] its"
proof -
  from writeByte_traced [OF assms] obtain its d1 where
    its: "page_write_items a [v] its" "(tr, d') = ([] @ events_of its, d1)"
    by (elim exE conjE)
  from its(2) have "decode tr = Some its" by (simp add: decode_events_of)
  with its(1) show ?thesis by (intro exI [of _ its] conjI)
qed

lemma perform_all_log:
  assumes "perform_all (traced drv) ops ([], d) = Some (Inr (tr, d'))"
  shows "\<exists>its. decode tr = Some its \<and> write_enabled [] (sent its)"
proof -
  from perform_all_traced [OF assms] obtain its d1 where
    its: "(tr, d') = ([] @ events_of its, d1)" "write_enabled [] (sent its)"
    by (elim exE conjE)
  from its(1) have "decode tr = Some its" by (simp add: decode_events_of)
  with its(2) show ?thesis by (intro exI [of _ its] conjI)
qed

lemma perform_log:
  assumes "perform (traced drv) opn (tr0, d) = Some (Inr (tr1, d1))"
  shows "\<exists>its. tr1 = tr0 @ events_of its \<and> write_enabled [] (sent its)"
proof -
  from perform_traced [OF assms] obtain its d2 where
    its: "(tr1, d1) = (tr0 @ events_of its, d2)" "write_enabled [] (sent its)"
    by (elim exE conjE)
  from its(1) have "tr1 = tr0 @ events_of its" by simp
  with its(2) show ?thesis by (intro exI [of _ its] conjI)
qed

text \<open>
  C8.  In the log of any sequence of public operations that returned, every frame
  that starts with the WRITE opcode \<open>0x02\<close> comes directly after a frame that sends the
  WREN opcode \<open>0x06\<close> and nothing else.  The same holds for the part of the log that one
  operation adds, read on its own, so the write enable belongs to the operation that
  writes.  The log of \<open>writeByte\<close> is one write-enable frame, one WRITE frame and a wait;
  the log of \<open>writeArray\<close> is that for every chunk.
\<close>

theorem write_enable_precedes_write:
  "(perform_all (traced drv) ops ([], d) = Some (Inr (tr, d')) \<longrightarrow>
      (\<exists>its. decode tr = Some its \<and> write_enabled [] (sent its)))
   \<and> (perform (traced drv) opn (tr0, d) = Some (Inr (tr1, d1)) \<longrightarrow>
      (\<exists>its. tr1 = tr0 @ events_of its \<and> write_enabled [] (sent its)))
   \<and> (writeByte (traced drv) a v ([], d) = Some (tr2, d2) \<longrightarrow>
      (\<exists>its. decode tr2 = Some its \<and> page_write_items a [v] its))
   \<and> (0 < len \<and> writeArray (traced drv) a (Some buf) len ([], d) = Some (tr3, d3) \<longrightarrow>
      (\<exists>itss. decode tr3 = Some (concat itss) \<and>
         list_all2 (\<lambda>(a, bs) its. page_write_items a bs its)
           (page_chunks a (map buf [0..<len])) itss))"
proof (intro conjI impI)
  assume "perform_all (traced drv) ops ([], d) = Some (Inr (tr, d'))"
  then show "\<exists>its. decode tr = Some its \<and> write_enabled [] (sent its)"
    by (rule perform_all_log)
next
  assume "perform (traced drv) opn (tr0, d) = Some (Inr (tr1, d1))"
  then show "\<exists>its. tr1 = tr0 @ events_of its \<and> write_enabled [] (sent its)"
    by (rule perform_log)
next
  assume "writeByte (traced drv) a v ([], d) = Some (tr2, d2)"
  then show "\<exists>its. decode tr2 = Some its \<and> page_write_items a [v] its"
    by (rule writeByte_log)
next
  assume "0 < len \<and> writeArray (traced drv) a (Some buf) len ([], d) = Some (tr3, d3)"
  then have "0 < len" "writeArray (traced drv) a (Some buf) len ([], d) = Some (tr3, d3)"
    by simp_all
  then show "\<exists>itss. decode tr3 = Some (concat itss) \<and>
         list_all2 (\<lambda>(a, bs) its. page_write_items a bs its)
           (page_chunks a (map buf [0..<len])) itss"
    by (rule writeArray_traced)
qed

text \<open>A byte write and an array write across a page boundary, on the chip.\<close>

theorem write_enable_precedes_write_witness:
  "\<exists>tr c' its.
     perform_all (traced chip_driver) [WriteByte 5 0xAB, WriteArray 14 (Some of_nat) 4]
       ([], fresh_chip 5) = Some (Inr (tr, c'))
     \<and> decode tr = Some its \<and> write_enabled [] (sent its)"
proof -
  let ?run = "perform_all (traced chip_driver) [WriteByte 5 0xAB, WriteArray 14 (Some of_nat) 4]
       ([], fresh_chip 5)"
  have "case ?run of Some (Inr r) \<Rightarrow> True | _ \<Rightarrow> False"
    by code_simp
  then obtain tr c' where run: "?run = Some (Inr (tr, c'))"
    by (auto split: option.splits sum.splits)
  from write_enable_precedes_write
    [of chip_driver "[WriteByte 5 0xAB, WriteArray 14 (Some of_nat) 4]" "fresh_chip 5" tr c']
  have "?run = Some (Inr (tr, c')) \<longrightarrow>
      (\<exists>its. decode tr = Some its \<and> write_enabled [] (sent its))"
    by (rule conjunct1)
  from this run obtain its where "decode tr = Some its" "write_enabled [] (sent its)"
    by (elim impE exE conjE)
  with run show ?thesis by (intro exI [of _ tr] exI [of _ c'] exI [of _ its] conjI)
qed

section \<open>Chip select\<close>

lemma cs_log: "tr = events_of its \<Longrightarrow> cs_track False tr = Some False"
  by (simp add: cs_events_of)

lemma perform_all_cs:
  assumes "perform_all (traced drv) ops ([], d) = Some (Inr (tr, d'))"
  shows "cs_track False tr = Some False"
proof -
  from perform_all_traced [OF assms] obtain its d1 where
    "(tr, d') = ([] @ events_of its, d1)" by (elim exE conjE)
  then have "tr = events_of its" by simp
  then show ?thesis by (rule cs_log)
qed

lemma perform_cs:
  assumes "perform (traced drv) opn ([], d) = Some (Inr (tr, d'))"
  shows "cs_track False tr = Some False"
proof -
  from perform_traced [OF assms] obtain its d1 where
    "(tr, d') = ([] @ events_of its, d1)" by (elim exE conjE)
  then have "tr = events_of its" by simp
  then show ?thesis by (rule cs_log)
qed

lemma wait_cs:
  assumes "waitUntilWriteComplete (traced drv) ([], d) = Some (tr, d')"
  shows "cs_track False tr = Some False"
proof -
  from waitUntilWriteComplete_traced [OF assms] obtain its d1 where
    "(tr, d') = ([] @ events_of its, d1)" by (elim exE conjE)
  then have "tr = events_of its" by simp
  then show ?thesis by (rule cs_log)
qed

lemma readByte_cs: "cs_track False (fst (snd (readByte (traced drv) a ([], d)))) = Some False"
proof -
  obtain its where "readByte (traced drv) a ([], d) =
         (fst (readByte drv a d), ([] @ events_of its, snd (readByte drv a d)))"
    using readByte_traced [of a drv "[]" d] by (elim exE conjE)
  then show ?thesis by (simp add: cs_events_of)
qed

lemma writeEnable_cs: "cs_track False (fst (writeEnable (traced drv) ([], d))) = Some False"
proof -
  obtain w where "writeEnable (traced drv) ([], d) = ([] @ events_of [w], writeEnable drv d)"
    using writeEnable_traced [of drv "[]" d] by (elim exE conjE)
  then show ?thesis by (simp add: cs_events_of)
qed

lemma readStatus_cs: "cs_track False (fst (snd (readStatus (traced drv) ([], d)))) = Some False"
proof -
  obtain it where "readStatus (traced drv) ([], d) =
       (fst (readStatus drv d), ([] @ item_events it, snd (readStatus drv d)))"
    using readStatus_traced [of drv d "[]"] by (elim exE conjE)
  then show ?thesis using cs_events_of [of "[it]"] by (simp add: events_of_def)
qed

text \<open>
  C10.  Chip select over the log of any public operation that returned, and of any
  sequence of them: the line starts released, every \<open>cs_low\<close> finds it released, every
  \<open>cs_high\<close> finds it asserted, the data and clock lines move only while it is asserted,
  and it is released at the end.  The same holds for \<open>readByte\<close>, \<open>writeEnable\<close> and
  \<open>readStatus\<close> on their own and for a \<open>waitUntilWriteComplete\<close> that returned.
\<close>

theorem chip_select_balanced:
  "(perform_all (traced drv) ops ([], d) = Some (Inr (tr, d')) \<longrightarrow>
      cs_track False tr = Some False)
   \<and> (perform (traced drv) opn ([], d) = Some (Inr (tr1, d1)) \<longrightarrow>
      cs_track False tr1 = Some False)
   \<and> cs_track False (fst (snd (readByte (traced drv) a ([], d)))) = Some False
   \<and> cs_track False (fst (writeEnable (traced drv) ([], d))) = Some False
   \<and> cs_track False (fst (snd (readStatus (traced drv) ([], d)))) = Some False
   \<and> (waitUntilWriteComplete (traced drv) ([], d) = Some (tr2, d2) \<longrightarrow>
      cs_track False tr2 = Some False)"
  using perform_all_cs [of drv ops d tr d'] perform_cs [of drv opn d tr1 d1]
    readByte_cs [of drv a d] writeEnable_cs [of drv d] readStatus_cs [of drv d]
    wait_cs [of drv d tr2 d2]
  by (intro conjI impI)

text \<open>A run of three operations on the chip.\<close>

theorem chip_select_balanced_witness:
  "\<exists>tr c'.
     perform_all (traced chip_driver)
       [ReadByte 3, WriteBit 3 2 False, ReadArray 0 (Some (\<lambda>i. 0)) 2]
       ([], fresh_chip 5) = Some (Inr (tr, c'))
     \<and> cs_track False tr = Some False"
proof -
  let ?ops = "[ReadByte 3, WriteBit 3 2 False, ReadArray 0 (Some (\<lambda>i. 0)) 2]"
  let ?run = "perform_all (traced chip_driver) ?ops ([], fresh_chip 5)"
  have "case ?run of Some (Inr r) \<Rightarrow> True | _ \<Rightarrow> False"
    by code_simp
  then obtain tr c' where run: "?run = Some (Inr (tr, c'))"
    by (auto split: option.splits sum.splits)
  from chip_select_balanced [of chip_driver ?ops "fresh_chip 5" tr c']
  have "?run = Some (Inr (tr, c')) \<longrightarrow> cs_track False tr = Some False"
    by (rule conjunct1)
  from this run have "cs_track False tr = Some False" by (rule mp)
  with run show ?thesis by (intro exI [of _ tr] exI [of _ c'] conjI)
qed

section \<open>Termination of the bit loops\<close>

lemma readBits_loop_returns:
  fixes off n br :: u32
  assumes "off \<le> 7" "n \<le> 32"
  shows "\<exists>r d'. readBits_loop drv off n res br a d = Some (Inr (r, d'))"
proof (induction "unat n - unat br" arbitrary: res br a d rule: less_induct)
  case less
  show ?case
  proof (cases "br < n")
    case False
    then show ?thesis by (subst readBits_loop_unfold) simp
  next
    case True
    note st = bits_step [OF assms True]
    define c where "c = bit_count off n br"
    have c: "c = min (8 - (if br = 0 then off else 0)) (n - br)"
      by (simp add: c_def bit_count_def bit_start_def)
    have s: "bit_start off br = (if br = 0 then off else 0)" by (simp add: bit_start_def)
    have b: "unat br < unat n" using True by (simp add: word_less_nat_alt)
    have "unat n - unat (br + c) < unat n - unat br"
      using st(3) st(8) b unfolding c by linarith
    from less [OF this] obtain r d' where
      "readBits_loop drv off n
         (res OR push_bit (unat br) (ucast (cut_out (fst (readByte drv a d)) (bit_start off br) c)))
         (br + c) (a + 1) (snd (readByte drv a d)) = Some (Inr (r, d'))"
      by blast
    then show ?thesis
      using True st(4) st(5)
      by (subst readBits_loop_unfold) (simp add: Let_def c_def [symmetric] s c [symmetric])
  qed
qed


lemma writeBits_loop_returns:
  fixes off n bw :: u32
  assumes "off \<le> 7" "n \<le> 32"
    and rd: "\<And>a d. I d \<Longrightarrow> I (snd (readByte drv a d))"
    and wr: "\<And>a b d. I d \<Longrightarrow> \<exists>d'. writeByte drv a b d = Some d' \<and> I d'"
    and "I d"
  shows "\<exists>d'. writeBits_loop drv off n v bw a d = Some (Inr d') \<and> I d'"
  using \<open>I d\<close>
proof (induction "unat n - unat bw" arbitrary: bw a d rule: less_induct)
  case less
  show ?case
  proof (cases "bw < n")
    case False
    then show ?thesis using less.prems by (subst writeBits_loop_unfold) simp
  next
    case True
    note st = bits_step [OF assms(1,2) True]
    define c where "c = bit_count off n bw"
    have c: "c = min (8 - (if bw = 0 then off else 0)) (n - bw)"
      by (simp add: c_def bit_count_def bit_start_def)
    have s: "bit_start off bw = (if bw = 0 then off else 0)" by (simp add: bit_start_def)
    have b: "unat bw < unat n" using True by (simp add: word_less_nat_alt)
    have m: "unat n - unat (bw + c) < unat n - unat bw"
      using st(3) st(8) b unfolding c by linarith
    let ?b = "splice (fst (readByte drv a d)) (bit_start off bw) c (drop_bit (unat bw) v)"
    from wr [OF rd [OF less.prems], of a ?b a] obtain d2 where
      d2: "writeByte drv a ?b (snd (readByte drv a d)) = Some d2" "I d2"
      by (elim exE conjE)
    from less.hyps [OF m d2(2), of "a + 1"] obtain d' where
      "writeBits_loop drv off n v (bw + c) (a + 1) d2 = Some (Inr d')" "I d'"
      by (elim exE conjE)
    then show ?thesis
      using True st(4) st(5) d2(1)
      by (subst writeBits_loop_unfold) (simp add: Let_def c_def [symmetric] s c [symmetric])
  qed
qed

lemma bit_count_8: "bit_count 8 n 0 = 0"
  by (simp add: bit_count_def bit_start_def)

lemma readBits_loop_stuck_aux:
  assumes "readBits_loop drv off n res br a d = Some y"
  shows "\<not> (off = 8 \<and> br = 0 \<and> 0 < n)"
proof (rule readBits_loop.raw_induct
    [where P = "\<lambda>drv off n res br a d y. \<not> (off = 8 \<and> br = 0 \<and> 0 < n)", OF _ assms])
  fix loop :: "'a driver \<Rightarrow> u32 \<Rightarrow> u32 \<Rightarrow> u32 \<Rightarrow> u32 \<Rightarrow> nat \<Rightarrow> 'a \<Rightarrow> (fault + u32 \<times> 'a) option"
    and drv :: "'a driver" and off n res br :: u32 and a :: nat and d y
  assume ih: "\<And>drv off n res br a d y. loop drv off n res br a d = Some y \<Longrightarrow>
      \<not> (off = 8 \<and> br = 0 \<and> 0 < n)"
  assume eq: "(if br < n
      then case readByte drv a d of
           (byte, d1) \<Rightarrow>
             let start_bit = if br = 0 then off else 0;
                 bits_in_byte = min (8 - start_bit) (n - br)
             in if 32 \<le> start_bit \<or> 32 \<le> bits_in_byte
                then Some (Inl Undefined_Shift)
                else let mask =
                           ucast
                            (push_bit (unat start_bit)
                              (push_bit (unat bits_in_byte) 1 - 1));
                         val = drop_bit (unat start_bit) (byte AND mask);
                         result' =
                           res OR push_bit (unat br) (ucast val)
                     in loop drv off n result'
                         (br + bits_in_byte) (a + 1) d1
      else Some (Inr (res, d))) =
     Some y"
  show "\<not> (off = 8 \<and> br = 0 \<and> 0 < n)"
  proof
    assume s: "off = 8 \<and> br = 0 \<and> 0 < n"
    with eq obtain res' d1 where "loop drv 8 n res' 0 (a + 1) d1 = Some y"
      by (simp add: Let_def split_beta)
    from ih [OF this] s show False by simp
  qed
qed

lemma writeBits_loop_stuck_aux:
  assumes "writeBits_loop drv off n v bw a d = Some y"
  shows "\<not> (off = 8 \<and> bw = 0 \<and> 0 < n)"
proof (rule writeBits_loop.raw_induct
    [where P = "\<lambda>drv off n v bw a d y. \<not> (off = 8 \<and> bw = 0 \<and> 0 < n)", OF _ assms])
  fix loop :: "'a driver \<Rightarrow> u32 \<Rightarrow> u32 \<Rightarrow> u32 \<Rightarrow> u32 \<Rightarrow> nat \<Rightarrow> 'a \<Rightarrow> (fault + 'a) option"
    and drv :: "'a driver" and off n v bw :: u32 and a :: nat and d y
  assume ih: "\<And>drv off n v bw a d y. loop drv off n v bw a d = Some y \<Longrightarrow>
      \<not> (off = 8 \<and> bw = 0 \<and> 0 < n)"
  assume eq: "(if bw < n
      then case readByte drv a d of
           (byte, d1) \<Rightarrow>
             let start_bit = if bw = 0 then off else 0;
                 bits_in_byte = min (8 - start_bit) (n - bw)
             in if 32 \<le> start_bit \<or> 32 \<le> bits_in_byte
                then Some (Inl Undefined_Shift)
                else let mask =
                           ucast
                            (push_bit (unat start_bit)
                              (push_bit (unat bits_in_byte) 1 - 1));
                         byte' =
                           ucast
                            (ucast byte AND NOT (ucast mask) OR
                             push_bit (unat start_bit)
                              (drop_bit (unat bw) v) AND
                             ucast mask)
                     in writeByte drv a byte' d1 \<bind>
                        loop drv off n v (bw + bits_in_byte) (a + 1)
      else Some (Inr d)) =
     Some y"
  show "\<not> (off = 8 \<and> bw = 0 \<and> 0 < n)"
  proof
    assume s: "off = 8 \<and> bw = 0 \<and> 0 < n"
    with eq obtain d2 where "loop drv 8 n v 0 (a + 1) d2 = Some y"
      by (auto simp: Let_def split_beta split: Option.bind_splits)
    from ih [OF this] s show False by simp
  qed
qed

lemma readBits_stuck:
  fixes n :: u32
  assumes "0 < n" "n \<le> 32"
  shows "readBits drv a 8 n d = None"
proof (cases "readBits drv a 8 n d")
  case None
  then show ?thesis .
next
  case (Some y)
  moreover from assms have "n \<noteq> 0" "\<not> 32 < n" by (auto simp: not_less)
  ultimately have "readBits_loop drv 8 n 0 0 a d = Some y"
    by (simp add: readBits_def)
  from readBits_loop_stuck_aux [OF this] assms(1) show ?thesis by simp
qed

lemma writeBits_stuck:
  fixes n :: u32
  assumes "0 < n" "n \<le> 32"
  shows "writeBits drv a 8 n v d = None"
proof (cases "writeBits drv a 8 n v d")
  case None
  then show ?thesis .
next
  case (Some y)
  moreover from assms have "n \<noteq> 0" "\<not> 32 < n" by (auto simp: not_less)
  ultimately have "writeBits_loop drv 8 n v 0 a d = Some y"
    by (simp add: writeBits_def)
  from writeBits_loop_stuck_aux [OF this] assms(1) show ?thesis by simp
qed



section \<open>The chip under the driver\<close>

lemma same_store_refl [simp]: "same_store c c"
  by (simp add: same_store_def)

lemma same_store_trans: "same_store a b \<Longrightarrow> same_store b c \<Longrightarrow> same_store a c"
  by (simp add: same_store_def)

lemma chip_status_same: "same_store c c' \<Longrightarrow> chip_status c' = chip_status c"
  by (simp add: same_store_def chip_status_def)

lemma chip_out_same: "same_store c c' \<Longrightarrow> chip_out c' bits = chip_out c bits"
  by (simp add: chip_out_def chip_status_same) (simp add: same_store_def)

lemma bit_step_chip:
  assumes "selected c"
  shows "\<exists>c'. bit_step chip_driver v c = (chip_out c (shifted c @ [v]), c') \<and>
           selected c' \<and> shifted c' = shifted c @ [v] \<and> same_store c c'"
proof -
  let ?c1 = "c\<lparr>mosi_level := v\<rparr>"
  have s: "same_store c ?c1" by (simp add: same_store_def)
  let ?c' = "?c1\<lparr>shifted := shifted c @ [v], miso_level := chip_out ?c1 (shifted c @ [v])\<rparr>"
  have "bit_step chip_driver v c = (chip_out ?c1 (shifted c @ [v]), ?c')"
    using assms by (simp add: bit_step_def chip_driver_def chip_clock_def Let_def)
  moreover have "same_store c ?c'" by (simp add: same_store_def)
  ultimately show ?thesis
    using assms chip_out_same [OF s]
    by (intro exI [of _ ?c']) simp
qed

lemma clock_bits_chip:
  assumes "selected c"
  shows "\<exists>c'. clock_bits chip_driver vs c =
             (map (\<lambda>k. chip_out c (shifted c @ take (Suc k) vs)) [0..<length vs], c') \<and>
           selected c' \<and> shifted c' = shifted c @ vs \<and> same_store c c'"
  using assms
proof (induction vs arbitrary: c)
  case Nil
  then show ?case by simp
next
  case (Cons v vs)
  from bit_step_chip [OF Cons.prems, of v] obtain c1 where
    c1: "bit_step chip_driver v c = (chip_out c (shifted c @ [v]), c1)"
      "selected c1" "shifted c1 = shifted c @ [v]" "same_store c c1"
    by (elim exE conjE)
  from Cons.IH [OF c1(2)] obtain c' where
    c': "clock_bits chip_driver vs c1 =
           (map (\<lambda>k. chip_out c1 (shifted c1 @ take (Suc k) vs)) [0..<length vs], c')"
      "selected c'" "shifted c' = shifted c1 @ vs" "same_store c1 c'"
    by (elim exE conjE)
  have m: "map (\<lambda>k. chip_out c (shifted c @ take (Suc k) (v # vs))) [0..<length (v # vs)] =
        chip_out c (shifted c @ [v]) #
        map (\<lambda>k. chip_out c1 (shifted c1 @ take (Suc k) vs)) [0..<length vs]"
    by (simp add: upt_conv_Cons map_Suc_upt [symmetric] c1(3) chip_out_same [OF c1(4)]
          del: upt_Suc)
  show ?case
    unfolding m using c1 c' same_store_trans [OF c1(4) c'(4)]
    by (intro exI [of _ c']) simp
qed

lemma answer_same: "same_store c c' \<Longrightarrow> answer c' pre bits = answer c pre bits"
  by (simp add: answer_def chip_out_same)

lemma answers_same: "same_store c c' \<Longrightarrow> answers c' pre ts = answers c pre ts"
  by (induction ts arbitrary: pre) (simp_all add: answer_same)

lemma length_answers [simp]: "length (answers c pre ts) = length ts"
  by (induction ts arbitrary: pre) simp_all

lemma transferByte_chip:
  assumes "selected c"
  shows "\<exists>c'. transferByte chip_driver t c = (answer c (shifted c) (msb_bits t), c') \<and>
           selected c' \<and> shifted c' = shifted c @ msb_bits t \<and> same_store c c'"
proof -
  from clock_bits_chip [OF assms, of "msb_bits t"] obtain c' where
    c': "clock_bits chip_driver (msb_bits t) c =
           (map (\<lambda>k. chip_out c (shifted c @ take (Suc k) (msb_bits t))) [0..<length (msb_bits t)], c')"
      "selected c'" "shifted c' = shifted c @ msb_bits t" "same_store c c'"
    by (elim exE conjE)
  then show ?thesis
    by (intro exI [of _ c']) (simp add: transferByte_clock_bits answer_def)
qed

lemma exchange_chip:
  assumes "selected c"
  shows "\<exists>c'. exchange chip_driver ts c = (answers c (shifted c) ts, c') \<and>
           selected c' \<and> shifted c' = shifted c @ concat (map msb_bits ts) \<and> same_store c c'"
  using assms
proof (induction ts arbitrary: c)
  case Nil
  then show ?case by simp
next
  case (Cons t ts)
  from transferByte_chip [OF Cons.prems, of t] obtain c1 where
    c1: "transferByte chip_driver t c = (answer c (shifted c) (msb_bits t), c1)"
      "selected c1" "shifted c1 = shifted c @ msb_bits t" "same_store c c1"
    by (elim exE conjE)
  from Cons.IH [OF c1(2)] obtain c' where
    c': "exchange chip_driver ts c1 = (answers c1 (shifted c1) ts, c')"
      "selected c'" "shifted c' = shifted c1 @ concat (map msb_bits ts)" "same_store c1 c'"
    by (elim exE conjE)
  show ?case
    using c1 c' same_store_trans [OF c1(4) c'(4)] answers_same [OF c1(4)]
    by (intro exI [of _ c']) simp
qed

lemma frame_chip:
  assumes "\<not> selected c"
  shows "\<exists>c2. frame chip_driver ts c = (answers c [] ts, chip_release c2) \<and>
           selected c2 \<and> shifted c2 = concat (map msb_bits ts) \<and> same_store c c2"
proof -
  let ?c1 = "c\<lparr>selected := True, shifted := []\<rparr>"
  have l: "cs_low chip_driver c = ?c1" using assms by (simp add: chip_driver_def)
  have s: "same_store c ?c1" by (simp add: same_store_def)
  have sel: "selected ?c1" by simp
  from exchange_chip [OF sel, of ts] obtain c2 where
    c2: "exchange chip_driver ts ?c1 = (answers ?c1 (shifted ?c1) ts, c2)"
      "selected c2" "shifted c2 = shifted ?c1 @ concat (map msb_bits ts)" "same_store ?c1 c2"
    by (elim exE conjE)
  have r: "cs_high chip_driver c2 = chip_release c2" by (simp add: chip_driver_def)
  show ?thesis
    using c2 same_store_trans [OF s c2(4)] answers_same [OF s]
    by (intro exI [of _ c2]) (simp add: frame_def l r)
qed

section \<open>Addresses on the wire\<close>

lemma nat_of_bits_acc:
  "foldl (\<lambda>a b. 2 * a + (if b then 1 else 0)) acc bs =
     acc * 2 ^ length bs + foldl (\<lambda>a b. 2 * a + (if b then 1 else 0)) (0::nat) bs"
proof -
  define f :: "nat \<Rightarrow> bool \<Rightarrow> nat" where "f = (\<lambda>a b. 2 * a + (if b then 1 else 0))"
  have "foldl f acc bs = acc * 2 ^ length bs + foldl f 0 bs"
  proof (induction bs arbitrary: acc)
    case Nil
    then show ?case by simp
  next
    case (Cons b bs)
    have "foldl f acc (b # bs) = foldl f (f acc b) bs" by simp
    also have "\<dots> = f acc b * 2 ^ length bs + foldl f 0 bs" by (rule Cons.IH)
    also have "f acc b = acc * 2 + f 0 b" by (simp add: f_def)
    also have "(acc * 2 + f 0 b) * 2 ^ length bs + foldl f 0 bs =
        acc * 2 ^ length (b # bs) + (f 0 b * 2 ^ length bs + foldl f 0 bs)"
      by (simp add: algebra_simps)
    also have "f 0 b * 2 ^ length bs + foldl f 0 bs = foldl f 0 (b # bs)"
      using Cons.IH [of "f 0 b"] by simp
    finally show ?case .
  qed
  then show ?thesis by (simp add: f_def)
qed

lemma nat_of_bits_append:
  "nat_of_bits (bs @ cs) = nat_of_bits bs * 2 ^ length cs + nat_of_bits cs"
  unfolding nat_of_bits_def foldl_append by (rule nat_of_bits_acc)

lemma nat_of_msb_bits: "nat_of_bits (msb_bits w) = unat w"
proof -
  have "horner_sum of_bool 2 (map (bit (unat w)) [0..<8]) = take_bit 8 (unat w)"
    by (rule horner_sum_bit_eq_take_bit)
  moreover have "take_bit 8 (unat w) = unat w"
    by (rule take_bit_nat_eq_self) (use unsigned_less [of w, where ?'a = nat] in simp)
  moreover have "map (bit (unat w)) [0..<8] = map (bit w) [0..<8]"
    by (rule map_cong) (simp_all add: bit_unsigned_iff)
  ultimately have "unat w = horner_sum of_bool 2 (map (bit w) [0..<8])"
    by simp
  then show ?thesis
    by (simp add: nat_of_bits_def msb_bits_def upt_rec eval_nat_numeral)
qed

lemma unat_address_high: "unat (address_high a) = (a div 256) mod 256"
  by (simp add: address_high_def nat_and_255 unat_of_nat drop_bit_eq_div)

lemma unat_address_low: "unat (address_low a) = a mod 256"
  by (simp add: address_low_def nat_and_255 unat_of_nat)

lemma address_bytes: "unat (address_high a) * 256 + unat (address_low a) = a mod 65536"
proof -
  have "a mod 65536 = a mod (256 * 256)" by simp
  also have "\<dots> = 256 * ((a div 256) mod 256) + a mod 256"
    by (rule mod_mult2_eq)
  finally show ?thesis by (simp add: unat_address_high unat_address_low)
qed

lemma address_bytes_wrap:
  assumes "16 \<le> w"
  shows "address_high (a mod 2 ^ w) = address_high a"
    and "address_low (a mod 2 ^ w) = address_low a"
    and "(a mod 2 ^ w) mod PAGE_SIZE = a mod PAGE_SIZE"
proof -
  from assms have "w = 16 + (w - 16)" by simp
  then obtain k where w: "w = 16 + k" ..
  have d16: "(65536::nat) dvd 2 ^ w" by (simp add: w power_add)
  then have m: "(a mod 2 ^ w) mod 65536 = a mod 65536" by (rule mod_mod_cancel)
  have h: "x mod 65536 = y mod 65536 \<Longrightarrow> (x div 256) mod 256 = (y div 256) mod 256"
    for x y :: nat
  proof -
    assume e: "x mod 65536 = y mod 65536"
    have "(z div 256) mod 256 = (z mod 65536) div 256" for z :: nat
      using mod_mult2_eq [of z 256 256] by simp
    with e show ?thesis by simp
  qed
  have l: "x mod 65536 = y mod 65536 \<Longrightarrow> x mod 256 = y mod 256" for x y :: nat
  proof -
    assume e: "x mod 65536 = y mod 65536"
    have "(z mod 65536) mod 256 = z mod 256" for z :: nat
      by (rule mod_mod_cancel) simp
    from this [of x] this [of y] e show ?thesis by simp
  qed
  show "address_high (a mod 2 ^ w) = address_high a"
    using h [OF m] by (simp add: word_unat_eq_iff unat_address_high)
  show "address_low (a mod 2 ^ w) = address_low a"
    using l [OF m] by (simp add: word_unat_eq_iff unat_address_low)
  have "(16::nat) dvd 2 ^ w" by (simp add: w power_add)
  then show "(a mod 2 ^ w) mod PAGE_SIZE = a mod PAGE_SIZE"
    unfolding PAGE_SIZE_def by (rule mod_mod_cancel)
qed

lemma chip_address_frame:
  "chip_address (msb_bits opc @ msb_bits (address_high a) @ msb_bits (address_low a) @ rest) =
     a mod 512"
proof -
  have "nat_of_bits (msb_bits (address_high a) @ msb_bits (address_low a)) = a mod 65536"
    by (simp add: nat_of_bits_append nat_of_msb_bits address_bytes)
  moreover have "(a mod 65536) mod 512 = a mod 512"
    by (rule mod_mod_cancel) simp
  ultimately show ?thesis by (simp add: chip_address_def)
qed

section \<open>The chip and the four commands\<close>

lemma msb_bits_alt: "msb_bits w = map (\<lambda>k. bit w (7 - k)) [0..<8]"
  by (simp add: msb_bits_def upt_rec eval_nat_numeral)

lemma take_msb_length: "k < 8 \<Longrightarrow> length (take (Suc k) (msb_bits t)) = Suc k"
  by simp

lemma chip_out_read:
  assumes "busy c = 0" "k < 8" "length tail = Suc k"
  shows "chip_out c (msb_bits 0x03 @ msb_bits (address_high a) @ msb_bits (address_low a) @ tail) =
           bit (mem c (a mod 512)) (7 - k)"
proof -
  let ?bits = "msb_bits 0x03 @ msb_bits (address_high a) @ msb_bits (address_low a) @ tail"
  have l: "length ?bits = 25 + k" using assms(3) by simp
  have o: "byte_of_bits (take 8 ?bits) = 0x03" by simp
  have a: "chip_address ?bits = a mod 512" by (rule chip_address_frame)
  have m: "(a mod 512 + k div 8) mod 512 = a mod 512" "k mod 8 = k"
    using assms(2) by simp_all
  show ?thesis
    unfolding chip_out_def Let_def l o a using assms(1) m by simp
qed

lemma answer_read:
  assumes "busy c = 0"
  shows "answer c (msb_bits 0x03 @ msb_bits (address_high a) @ msb_bits (address_low a))
           (msb_bits t) = mem c (a mod 512)"
proof -
  have "map (\<lambda>k. chip_out c ((msb_bits 0x03 @ msb_bits (address_high a) @
            msb_bits (address_low a)) @ take (Suc k) (msb_bits t))) [0..<8] =
        map (\<lambda>k. bit (mem c (a mod 512)) (7 - k)) [0..<8]"
    by (rule map_cong) (simp_all add: chip_out_read [OF assms])
  then show ?thesis by (simp add: answer_def msb_bits_alt [symmetric])
qed

lemma chip_out_status:
  assumes "k < 8" "length tail = Suc k"
  shows "chip_out c (msb_bits 0x05 @ tail) = bit (chip_status c) (7 - k)"
proof -
  let ?bits = "msb_bits 0x05 @ tail"
  have l: "length ?bits = 9 + k" using assms(2) by simp
  have o: "byte_of_bits (take 8 ?bits) = 0x05" by simp
  show ?thesis
    unfolding chip_out_def Let_def l o using assms(1) by simp
qed

lemma answer_status: "answer c (msb_bits 0x05) (msb_bits t) = chip_status c"
proof -
  have "map (\<lambda>k. chip_out c (msb_bits 0x05 @ take (Suc k) (msb_bits t))) [0..<8] =
        map (\<lambda>k. bit (chip_status c) (7 - k)) [0..<8]"
    by (rule map_cong) (simp_all add: chip_out_status)
  then show ?thesis by (simp add: answer_def msb_bits_alt [symmetric])
qed

lemma group_bytes_msb: "group_bytes (concat (map msb_bits bs)) = bs"
proof (induction bs)
  case Nil
  show ?case by simp
next
  case (Cons b bs)
  obtain a1 a2 a3 a4 a5 a6 a7 a8 where m: "msb_bits b = [a1, a2, a3, a4, a5, a6, a7, a8]"
    using msb_bits_8 by blast
  have "byte_of_bits [a1, a2, a3, a4, a5, a6, a7, a8] = b"
    using byte_of_msb_bits [of b] by (simp only: m)
  then show ?case using Cons by (simp add: m)
qed

lemma length_concat_msb: "length (concat (map msb_bits bs)) = 8 * length bs"
  by (induction bs) simp_all

text \<open>What releasing chip select does after each of the four frames.\<close>

lemma release_read:
  assumes "selected c2" "busy c2 = 0"
    "shifted c2 = concat (map msb_bits [0x03, h, l, t])"
  shows "\<not> selected (chip_release c2) \<and> same_store c2 (chip_release c2)"
proof -
  have "byte_of_bits (take 8 (shifted c2)) = 0x03" by (simp add: assms(3))
  then show ?thesis
    using assms(1,2) by (simp add: chip_release_def Let_def same_store_def)
qed

lemma release_status:
  assumes "selected c2" "shifted c2 = concat (map msb_bits [0x05, t])"
  shows "\<not> selected (chip_release c2) \<and> same_store c2 (chip_release c2)"
proof -
  have "byte_of_bits (take 8 (shifted c2)) = 0x05" by (simp add: assms(2))
  then show ?thesis
    using assms(1) by (simp add: chip_release_def Let_def same_store_def)
qed

lemma release_wren:
  assumes "selected c2" "busy c2 = 0" "shifted c2 = concat (map msb_bits [0x06])"
  shows "\<not> selected (chip_release c2) \<and> wel (chip_release c2) \<and>
         mem (chip_release c2) = mem c2 \<and> busy (chip_release c2) = 0 \<and>
         t_wc (chip_release c2) = t_wc c2"
proof -
  have "byte_of_bits (take 8 (shifted c2)) = 0x06" "length (shifted c2) = 8"
    by (simp_all add: assms(3))
  then show ?thesis
    using assms(1,2) by (simp add: chip_release_def Let_def)
qed

lemma release_write:
  assumes "selected c2" "busy c2 = 0" "wel c2" "bs \<noteq> []"
    "shifted c2 = concat (map msb_bits (0x02 # address_high a # address_low a # bs))"
  shows "\<not> selected (chip_release c2) \<and> \<not> wel (chip_release c2) \<and>
         mem (chip_release c2) = page_write (mem c2) (a mod 512) bs \<and>
         busy (chip_release c2) = t_wc c2 \<and> t_wc (chip_release c2) = t_wc c2"
proof -
  let ?bits = "shifted c2"
  have b: "?bits = msb_bits 0x02 @ msb_bits (address_high a) @ msb_bits (address_low a) @
             concat (map msb_bits bs)"
    by (simp add: assms(5))
  have o: "byte_of_bits (take 8 ?bits) = 0x02" by (simp add: b)
  have l: "length ?bits = 24 + 8 * length bs" by (simp add: b length_concat_msb)
  have a: "chip_address ?bits = a mod 512" unfolding b by (rule chip_address_frame)
  have g: "group_bytes (drop 24 ?bits) = bs" by (simp add: b group_bytes_msb)
  have "Suc 0 \<le> length bs" using assms(4) by (cases bs) simp_all
  then have k: "32 \<le> length ?bits" "length ?bits mod 8 = 0" unfolding l by simp_all
  show ?thesis
    using assms(1,2,3) k unfolding chip_release_def Let_def o a g by simp
qed

lemma readByte_chip:
  assumes "idle c"
  shows "fst (readByte chip_driver a c) = mem c (a mod 512) \<and>
         idle (snd (readByte chip_driver a c)) \<and> same_store c (snd (readByte chip_driver a c))"
proof -
  let ?ts = "[0x03, address_high a, address_low a, 0xFF]"
  from assms have ns: "\<not> selected c" and b: "busy c = 0" by (simp_all add: idle_def)
  from frame_chip [OF ns, of ?ts] obtain c2 where
    c2: "frame chip_driver ?ts c = (answers c [] ?ts, chip_release c2)"
      "selected c2" "shifted c2 = concat (map msb_bits ?ts)" "same_store c c2"
    by (elim exE conjE)
  have b2: "busy c2 = 0" using c2(4) b by (simp add: same_store_def)
  from release_read [OF c2(2) b2 c2(3)]
  have r: "\<not> selected (chip_release c2)" "same_store c2 (chip_release c2)" by simp_all
  have s: "same_store c (chip_release c2)" by (rule same_store_trans [OF c2(4) r(2)])
  have v: "answers c [] ?ts ! 3 = mem c (a mod 512)"
    using answer_read [OF b, of a "0xFF"] by (simp add: numeral_3_eq_3)
  have i: "idle (chip_release c2)"
    using r(1) s b by (simp add: idle_def same_store_def)
  show ?thesis
    using v i s by (simp add: readByte_frame c2(1))
qed

lemma readStatus_chip:
  assumes "\<not> selected c"
  shows "fst (readStatus chip_driver c) = chip_status c \<and>
         \<not> selected (snd (readStatus chip_driver c)) \<and>
         same_store c (snd (readStatus chip_driver c))"
proof -
  let ?ts = "[0x05, 0xFF]"
  from frame_chip [OF assms, of ?ts] obtain c2 where
    c2: "frame chip_driver ?ts c = (answers c [] ?ts, chip_release c2)"
      "selected c2" "shifted c2 = concat (map msb_bits ?ts)" "same_store c c2"
    by (elim exE conjE)
  from release_status [OF c2(2) c2(3)]
  have r: "\<not> selected (chip_release c2)" "same_store c2 (chip_release c2)" by simp_all
  have s: "same_store c (chip_release c2)" by (rule same_store_trans [OF c2(4) r(2)])
  have v: "answers c [] ?ts ! 1 = chip_status c"
    using answer_status [of c "0xFF"] by simp
  show ?thesis
    using v r(1) s by (simp add: readStatus_frame c2(1))
qed

lemma writeEnable_chip:
  assumes "idle c"
  shows "idle (writeEnable chip_driver c) \<and> wel (writeEnable chip_driver c) \<and>
         mem (writeEnable chip_driver c) = mem c \<and> t_wc (writeEnable chip_driver c) = t_wc c"
proof -
  let ?ts = "[0x06]"
  from assms have ns: "\<not> selected c" and b: "busy c = 0" by (simp_all add: idle_def)
  from frame_chip [OF ns, of ?ts] obtain c2 where
    c2: "frame chip_driver ?ts c = (answers c [] ?ts, chip_release c2)"
      "selected c2" "shifted c2 = concat (map msb_bits ?ts)" "same_store c c2"
    by (elim exE conjE)
  have b2: "busy c2 = 0" using c2(4) b by (simp add: same_store_def)
  from release_wren [OF c2(2) b2 c2(3)] c2(4)
  show ?thesis
    by (simp add: writeEnable_frame c2(1) idle_def same_store_def)
qed

lemma status_wip: "chip_status c AND WIP_MASK = 0 \<longleftrightarrow> busy c = 0"
  by (simp add: chip_status_def WIP_MASK_def)

lemma wait_chip:
  assumes "\<not> selected c"
  shows "\<exists>c'. waitUntilWriteComplete chip_driver c = Some c' \<and> idle c' \<and>
           mem c' = mem c \<and> wel c' = wel c \<and> t_wc c' = t_wc c"
  using assms
proof (induction "busy c" arbitrary: c rule: less_induct)
  case less
  let ?c1 = "snd (readStatus chip_driver c)"
  from readStatus_chip [OF less.prems]
  have st: "fst (readStatus chip_driver c) = chip_status c" "\<not> selected ?c1" "same_store c ?c1"
    by simp_all
  show ?case
  proof (cases "busy c = 0")
    case True
    have "waitUntilWriteComplete chip_driver c = Some ?c1"
      using True st(1) by (subst waitUntilWriteComplete.simps) (simp add: split_beta status_wip)
    moreover have "idle ?c1" using st(2,3) True by (simp add: idle_def same_store_def)
    ultimately show ?thesis using st(3) by (simp add: same_store_def)
  next
    case False
    let ?c2 = "delay_us chip_driver 10 ?c1"
    have c2: "?c2 = ?c1\<lparr>busy := busy ?c1 - 10\<rparr>" by (simp add: chip_driver_def)
    have lt: "busy ?c2 < busy c" using False st(3) by (simp add: c2 same_store_def)
    have ns: "\<not> selected ?c2" using st(2) by (simp add: c2)
    from less.hyps [OF lt ns] obtain c' where
      c': "waitUntilWriteComplete chip_driver ?c2 = Some c'" "idle c'"
        "mem c' = mem ?c2" "wel c' = wel ?c2" "t_wc c' = t_wc ?c2"
      by (elim exE conjE)
    have "waitUntilWriteComplete chip_driver c = Some c'"
      using False st(1) c'(1)
      by (subst waitUntilWriteComplete.simps) (simp add: split_beta status_wip)
    then show ?thesis
      using c'(2-5) st(3) by (simp add: c2 same_store_def)
  qed
qed

lemma write_cycle_chip:
  assumes "idle c" "bs \<noteq> []"
  shows "\<exists>c'. write_cycle chip_driver a bs c = Some c' \<and> idle c' \<and>
           mem c' = page_write (mem c) (a mod 512) bs \<and> t_wc c' = t_wc c"
proof -
  let ?c1 = "writeEnable chip_driver c"
  let ?ts = "0x02 # address_high a # address_low a # bs"
  from writeEnable_chip [OF assms(1)]
  have c1: "idle ?c1" "wel ?c1" "mem ?c1 = mem c" "t_wc ?c1 = t_wc c" by simp_all
  from c1(1) have ns: "\<not> selected ?c1" and b: "busy ?c1 = 0" by (simp_all add: idle_def)
  from frame_chip [OF ns, of ?ts] obtain c2 where
    c2: "frame chip_driver ?ts ?c1 = (answers ?c1 [] ?ts, chip_release c2)"
      "selected c2" "shifted c2 = concat (map msb_bits ?ts)" "same_store ?c1 c2"
    by (elim exE conjE)
  have p: "busy c2 = 0" "wel c2" "mem c2 = mem c" "t_wc c2 = t_wc c"
    using c2(4) b c1 by (simp_all add: same_store_def)
  from release_write [OF c2(2) p(1) p(2) assms(2) c2(3)]
  have r: "\<not> selected (chip_release c2)"
      "mem (chip_release c2) = page_write (mem c2) (a mod 512) bs"
      "t_wc (chip_release c2) = t_wc c2"
    by simp_all
  from wait_chip [OF r(1)] obtain c' where
    c': "waitUntilWriteComplete chip_driver (chip_release c2) = Some c'" "idle c'"
      "mem c' = mem (chip_release c2)" "t_wc c' = t_wc (chip_release c2)"
    by (elim exE conjE)
  have "write_cycle chip_driver a bs c = Some c'"
    using c'(1) by (simp add: write_cycle_def c2(1))
  then show ?thesis
    using c'(2,3,4) r(2,3) p(3,4) by (intro exI [of _ c']) simp
qed

lemma writeByte_chip:
  assumes "idle c"
  shows "\<exists>c'. writeByte chip_driver a v c = Some c' \<and> idle c' \<and>
           mem c' = (mem c)(a mod 512 := v) \<and> t_wc c' = t_wc c"
  using write_cycle_chip [OF assms, of "[v]" a] by (simp add: writeByte_cycle)

section \<open>Byte round trip\<close>

text \<open>
  C2.  On the chip at rest, for every address below 512 and every byte: \<open>writeByte\<close>
  returns, and \<open>readByte\<close> at the same address then returns the byte written.
\<close>

theorem writeByte_readByte_roundtrip:
  "idle c \<and> a < CAPACITY_BYTES \<longrightarrow>
     (\<exists>c'. writeByte chip_driver a v c = Some c' \<and> fst (readByte chip_driver a c') = v)"
proof (intro impI, elim conjE)
  assume i: "idle c" and a: "a < CAPACITY_BYTES"
  from writeByte_chip [OF i, of a v] obtain c' where
    c': "writeByte chip_driver a v c = Some c'" "idle c'" "mem c' = (mem c)(a mod 512 := v)"
    by (elim exE conjE)
  from readByte_chip [OF c'(2), of a]
  have "fst (readByte chip_driver a c') = mem c' (a mod 512)" by simp
  with c'(3) have "fst (readByte chip_driver a c') = v" by simp
  with c'(1) show "\<exists>c'. writeByte chip_driver a v c = Some c' \<and> fst (readByte chip_driver a c') = v"
    by (intro exI [of _ c'] conjI)
qed

text \<open>The byte \<open>0xAB\<close> at address 5 of a fresh chip.\<close>

theorem writeByte_readByte_roundtrip_witness:
  "idle (fresh_chip 5) \<and> (5 :: nat) < CAPACITY_BYTES \<and>
   (\<exists>c'. writeByte chip_driver 5 0xAB (fresh_chip 5) = Some c' \<and>
         fst (readByte chip_driver 5 c') = 0xAB)"
proof -
  have h: "idle (fresh_chip 5)" "(5 :: nat) < CAPACITY_BYTES"
    by (simp_all add: idle_def fresh_chip_def CAPACITY_BYTES_def)
  with writeByte_readByte_roundtrip [of "fresh_chip 5" 5 "0xAB"] show ?thesis by simp
qed

section \<open>The bit loops return\<close>

lemma readBits_returns:
  fixes off :: u32
  assumes "off \<le> 7"
  shows "\<exists>r d'. readBits drv a off n d = Some (Inr (r, d'))"
proof (cases "n = 0 \<or> 32 < n")
  case True
  then show ?thesis by (simp add: readBits_def)
next
  case False
  then have n: "n \<le> 32" by (simp add: not_less)
  from readBits_loop_returns [OF assms n, of drv 0 0 a d] False
  show ?thesis by (simp add: readBits_def)
qed

lemma writeBits_returns:
  fixes off :: u32
  assumes "off \<le> 7"
    and rd: "\<And>a d. I d \<Longrightarrow> I (snd (readByte drv a d))"
    and wr: "\<And>a b d. I d \<Longrightarrow> \<exists>d'. writeByte drv a b d = Some d' \<and> I d'"
    and "I d"
  shows "\<exists>d'. writeBits drv a off n v d = Some (Inr d') \<and> I d'"
proof (cases "n = 0 \<or> 32 < n")
  case True
  then show ?thesis using \<open>I d\<close> by (simp add: writeBits_def)
next
  case False
  then have n: "n \<le> 32" by (simp add: not_less)
  from writeBits_loop_returns [of off n I drv d v 0 a, OF assms(1) n rd wr \<open>I d\<close>] False
  show ?thesis by (simp add: writeBits_def)
qed

lemma writeBits_chip_returns:
  fixes off :: u32
  assumes "off \<le> 7" "idle c"
  shows "\<exists>c'. writeBits chip_driver a off n v c = Some (Inr c') \<and> idle c'"
proof (rule writeBits_returns [of off idle chip_driver c, OF assms(1) _ _ assms(2)])
  fix a d assume "idle (d :: chip)"
  then show "idle (snd (readByte chip_driver a d))" using readByte_chip by blast
next
  fix a b d assume "idle (d :: chip)"
  from writeByte_chip [OF this, of a b]
  show "\<exists>d'. writeByte chip_driver a b d = Some d' \<and> idle d'" by blast
qed

lemma readBits_rounds:
  assumes "off \<le> 7" "readBits (traced drv) a off n ([], d) = Some (Inr (r, (tr, d')))"
  shows "\<exists>itss. decode tr = Some (concat itss) \<and>
           list_all2 read_items [a..<a + length itss] itss \<and> length itss \<le> 5"
proof -
  from readBits_traced [OF assms(2)] obtain itss d1 where
    itss: "(tr, d') = ([] @ events_of (concat itss), d1)"
      "list_all2 read_items [a..<a + length itss] itss"
      "off \<le> 7 \<longrightarrow> length itss \<le> 5"
    by (elim exE conjE)
  from itss(1) have "decode tr = Some (concat itss)" by (simp add: decode_events_of)
  with itss(2,3) assms(1) show ?thesis by (intro exI [of _ itss] conjI) simp_all
qed

lemma writeBits_rounds:
  assumes "off \<le> 7" "writeBits (traced drv) a off n v ([], d) = Some (Inr (tr, d'))"
  shows "\<exists>itss. decode tr = Some (concat itss) \<and>
           list_all2 rmw_items [a..<a + length itss] itss \<and> length itss \<le> 5"
proof -
  from writeBits_traced [OF assms(2)] obtain itss d1 where
    itss: "(tr, d') = ([] @ events_of (concat itss), d1)"
      "list_all2 rmw_items [a..<a + length itss] itss"
      "off \<le> 7 \<longrightarrow> length itss \<le> 5"
    by (elim exE conjE)
  from itss(1) have "decode tr = Some (concat itss)" by (simp add: decode_events_of)
  with itss(2,3) assms(1) show ?thesis by (intro exI [of _ itss] conjI) simp_all
qed

lemma bit_count_positive:
  fixes off n br :: u32
  assumes "off \<le> 7" "n \<le> 32" "br < n"
  shows "0 < bit_count off n br \<and>
         unat (br + bit_count off n br) = unat br + unat (bit_count off n br)"
proof -
  note st = bits_step [OF assms]
  have c: "bit_count off n br = min (8 - (if br = 0 then off else 0)) (n - br)"
    by (simp add: bit_count_def bit_start_def)
  from st(8) have "0 < bit_count off n br" unfolding c by (simp add: word_less_nat_alt)
  with st(3) show ?thesis unfolding c by simp
qed

text \<open>
  C9.  With \<open>bitOffset\<close> in 0..7: \<open>readBits\<close> returns on every driver; \<open>writeBits\<close>
  returns on every driver whose byte writes return (stated with an invariant \<open>I\<close> of the
  driver state that the byte reads and writes keep), so on the chip at rest; every
  round takes \<open>min(8 - start_bit, bitCount - bits_done) > 0\<close> bits, without overflow;
  and the log of a call shows at most 5 rounds, one byte read each (and, for
  \<open>writeBits\<close>, one byte write each), at consecutive addresses.  With \<open>bitOffset = 8\<close> and
  \<open>bitCount\<close> in 1..32 the first round takes no bit and neither call returns, on any
  driver.
\<close>

theorem bit_loops_terminate:
  fixes off n br :: u32
  shows
  "(off \<le> 7 \<longrightarrow> (\<exists>r d'. readBits drv a off n d = Some (Inr (r, d'))))
   \<and> (off \<le> 7 \<and> I d \<and> (\<forall>a d. I d \<longrightarrow> I (snd (readByte drv a d))) \<and>
        (\<forall>a b d. I d \<longrightarrow> (\<exists>d'. writeByte drv a b d = Some d' \<and> I d')) \<longrightarrow>
        (\<exists>d'. writeBits drv a off n v d = Some (Inr d') \<and> I d'))
   \<and> (off \<le> 7 \<and> idle c \<longrightarrow> (\<exists>c'. writeBits chip_driver a off n v c = Some (Inr c')))
   \<and> (off \<le> 7 \<and> n \<le> 32 \<and> br < n \<longrightarrow>
        0 < bit_count off n br \<and>
        unat (br + bit_count off n br) = unat br + unat (bit_count off n br))
   \<and> (off \<le> 7 \<and> readBits (traced drv) a off n ([], d) = Some (Inr (r, (tr, d1))) \<longrightarrow>
        (\<exists>itss. decode tr = Some (concat itss) \<and>
           list_all2 read_items [a..<a + length itss] itss \<and> length itss \<le> 5))
   \<and> (off \<le> 7 \<and> writeBits (traced drv) a off n v ([], d) = Some (Inr (tr2, d2)) \<longrightarrow>
        (\<exists>itss. decode tr2 = Some (concat itss) \<and>
           list_all2 rmw_items [a..<a + length itss] itss \<and> length itss \<le> 5))
   \<and> (0 < n \<and> n \<le> 32 \<longrightarrow>
        bit_count 8 n 0 = 0 \<and> readBits drv a 8 n d = None \<and> writeBits drv a 8 n v d = None)"
proof (intro conjI impI)
  assume "off \<le> 7"
  then show "\<exists>r d'. readBits drv a off n d = Some (Inr (r, d'))" by (rule readBits_returns)
next
  assume h: "off \<le> 7 \<and> I d \<and> (\<forall>a d. I d \<longrightarrow> I (snd (readByte drv a d))) \<and>
        (\<forall>a b d. I d \<longrightarrow> (\<exists>d'. writeByte drv a b d = Some d' \<and> I d'))"
  show "\<exists>d'. writeBits drv a off n v d = Some (Inr d') \<and> I d'"
  proof (rule writeBits_returns [of off I drv d])
    show "off \<le> 7" using h by simp
    show "I d" using h by simp
    fix a d assume "I d" then show "I (snd (readByte drv a d))" using h by simp
  next
    fix a b d assume "I d"
    then show "\<exists>d'. writeByte drv a b d = Some d' \<and> I d'" using h by simp
  qed
next
  assume "off \<le> 7 \<and> idle c"
  then have "off \<le> 7" "idle c" by simp_all
  from writeBits_chip_returns [OF this, of a n v]
  show "\<exists>c'. writeBits chip_driver a off n v c = Some (Inr c')" by (elim exE conjE) (rule exI)
next
  assume "off \<le> 7 \<and> n \<le> 32 \<and> br < n"
  then have "off \<le> 7" "n \<le> 32" "br < n" by simp_all
  from bit_count_positive [OF this] show "0 < bit_count off n br" by simp
next
  assume "off \<le> 7 \<and> n \<le> 32 \<and> br < n"
  then have "off \<le> 7" "n \<le> 32" "br < n" by simp_all
  from bit_count_positive [OF this]
  show "unat (br + bit_count off n br) = unat br + unat (bit_count off n br)" by simp
next
  assume "off \<le> 7 \<and> readBits (traced drv) a off n ([], d) = Some (Inr (r, (tr, d1)))"
  then have "off \<le> 7" "readBits (traced drv) a off n ([], d) = Some (Inr (r, (tr, d1)))"
    by simp_all
  then show "\<exists>itss. decode tr = Some (concat itss) \<and>
           list_all2 read_items [a..<a + length itss] itss \<and> length itss \<le> 5"
    by (rule readBits_rounds)
next
  assume "off \<le> 7 \<and> writeBits (traced drv) a off n v ([], d) = Some (Inr (tr2, d2))"
  then have "off \<le> 7" "writeBits (traced drv) a off n v ([], d) = Some (Inr (tr2, d2))"
    by simp_all
  then show "\<exists>itss. decode tr2 = Some (concat itss) \<and>
           list_all2 rmw_items [a..<a + length itss] itss \<and> length itss \<le> 5"
    by (rule writeBits_rounds)
next
  show "bit_count 8 n 0 = 0" by (rule bit_count_8)
next
  assume "0 < n \<and> n \<le> 32"
  then have "0 < n" "n \<le> 32" by simp_all
  then show "readBits drv a 8 n d = None" by (rule readBits_stuck)
next
  assume "0 < n \<and> n \<le> 32"
  then have "0 < n" "n \<le> 32" by simp_all
  then show "writeBits drv a 8 n v d = None" by (rule writeBits_stuck)
qed

text \<open>Ten bits from bit 3 of the byte at address 7, on a fresh chip.\<close>

theorem bit_loops_terminate_witness:
  "(\<exists>r d'. readBits chip_driver 7 3 10 (fresh_chip 5) = Some (Inr (r, d')))
   \<and> (\<exists>c'. writeBits chip_driver 7 3 10 0x2AB (fresh_chip 5) = Some (Inr c'))
   \<and> (0 :: u32) < bit_count 3 10 0
   \<and> (\<exists>r tr d1 itss.
        readBits (traced chip_driver) 7 3 10 ([], fresh_chip 5) = Some (Inr (r, (tr, d1))) \<and>
        decode tr = Some (concat itss) \<and> length itss \<le> 5)
   \<and> readBits chip_driver 7 8 10 (fresh_chip 5) = None
   \<and> writeBits chip_driver 7 8 10 0x2AB (fresh_chip 5) = None"
proof -
  have i: "idle (fresh_chip 5)" by (simp add: idle_def fresh_chip_def)
  note plain = bit_loops_terminate [where off = 3 and n = 10 and br = 0 and drv = chip_driver
      and a = 7 and d = "fresh_chip 5" and c = "fresh_chip 5" and v = "0x2AB"]
  from plain have 1: "\<exists>r d'. readBits chip_driver 7 3 10 (fresh_chip 5) = Some (Inr (r, d'))"
    by simp
  from plain i
  have 2: "\<exists>c'. writeBits chip_driver 7 3 10 0x2AB (fresh_chip 5) = Some (Inr c')"
    by simp
  from plain have 3: "(0 :: u32) < bit_count 3 10 0" by simp
  from plain have 5: "readBits chip_driver 7 8 10 (fresh_chip 5) = None"
    "writeBits chip_driver 7 8 10 0x2AB (fresh_chip 5) = None"
    by simp_all
  note logged = bit_loops_terminate [where off = 3 and n = 10 and drv = "traced chip_driver"
      and a = 7 and d = "([], fresh_chip 5)"]
  from logged
  have "\<exists>r td. readBits (traced chip_driver) 7 3 10 ([], fresh_chip 5) = Some (Inr (r, td))"
    by simp
  then obtain r td where
    run: "readBits (traced chip_driver) 7 3 10 ([], fresh_chip 5) = Some (Inr (r, td))"
    by (elim exE)
  obtain tr d1 where td: "td = (tr, d1)" by (cases td)
  from bit_loops_terminate [where off = 3 and n = 10 and drv = chip_driver and a = 7
      and d = "fresh_chip 5" and r = r and tr = tr and ?d1.0 = d1] run [unfolded td]
  have "\<exists>itss. decode tr = Some (concat itss) \<and>
           list_all2 read_items [7..<7 + length itss] itss \<and> length itss \<le> 5"
    by simp
  then obtain itss where "decode tr = Some (concat itss)" "length itss \<le> 5"
    by (elim exE conjE)
  with run td have 4: "\<exists>r tr d1 itss.
        readBits (traced chip_driver) 7 3 10 ([], fresh_chip 5) = Some (Inr (r, (tr, d1))) \<and>
        decode tr = Some (concat itss) \<and> length itss \<le> 5"
    by (intro exI [of _ r] exI [of _ tr] exI [of _ d1] exI [of _ itss]) simp
  from 1 2 3 4 5 show ?thesis by (intro conjI)
qed

section \<open>Writing an array page by page\<close>

text \<open>
  Logging does not change whether a run returns: every run of the plain driver is
  matched by a run of the logging one.  On the chip at rest every write cycle ends, so
  the whole loop does.
\<close>

lemma waitUntilWriteComplete_returns_traced:
  assumes "waitUntilWriteComplete drv d = Some d'"
  shows "\<forall>tr. \<exists>tr'. waitUntilWriteComplete (traced drv) (tr, d) = Some (tr', d')"
proof (rule waitUntilWriteComplete.raw_induct [where P = "\<lambda>drv d d'.
         \<forall>tr. \<exists>tr'. waitUntilWriteComplete (traced drv) (tr, d) = Some (tr', d')", OF _ assms])
  fix wait :: "'a driver \<Rightarrow> 'a \<Rightarrow> 'a option" and drv :: "'a driver" and d d'
  assume 1: "\<And>drv d d'. wait drv d = Some d' \<Longrightarrow>
           \<forall>tr. \<exists>tr'. waitUntilWriteComplete (traced drv) (tr, d) = Some (tr', d')"
     "(case readStatus drv d of
      (status, d1) \<Rightarrow>
        if status AND WIP_MASK = 0 then Some d1
        else wait drv (delay_us drv 10 d1)) = Some d'"
  show "\<forall>tr. \<exists>tr'. waitUntilWriteComplete (traced drv) (tr, d) = Some (tr', d')"
  proof
    fix tr
    obtain it where it:
       "readStatus (traced drv) (tr, d) =
          (fst (readStatus drv d), (tr @ item_events it, snd (readStatus drv d)))"
      using readStatus_traced [of drv d tr] by (elim exE conjE)
    let ?s = "fst (readStatus drv d)" and ?d1 = "snd (readStatus drv d)"
    show "\<exists>tr'. waitUntilWriteComplete (traced drv) (tr, d) = Some (tr', d')"
    proof (cases "?s AND WIP_MASK = 0")
      case True
      with 1(2) have "d' = ?d1" by (simp add: split_beta)
      then have "waitUntilWriteComplete (traced drv) (tr, d) = Some (tr @ item_events it, d')"
        using True it by (subst waitUntilWriteComplete.simps) simp
      then show ?thesis by (rule exI)
    next
      case False
      with 1(2) have "wait drv (delay_us drv 10 ?d1) = Some d'" by (simp add: split_beta)
      from 1(1) [OF this, rule_format, of "tr @ item_events it @ [Delay 10]"]
      obtain tr' where
        "waitUntilWriteComplete (traced drv)
           (tr @ item_events it @ [Delay 10], delay_us drv 10 ?d1) = Some (tr', d')"
        by (elim exE)
      then have "waitUntilWriteComplete (traced drv) (tr, d) = Some (tr', d')"
        using False it by (subst waitUntilWriteComplete.simps) simp
      then show ?thesis by (rule exI)
    qed
  qed
qed

lemma write_cycle_returns_traced:
  assumes "write_cycle drv a bs d = Some d'"
  shows "\<exists>tr'. write_cycle (traced drv) a bs (tr, d) = Some (tr', d')"
proof -
  let ?ts = "opcode_byte WRITE # address_high a # address_low a # bs"
  obtain w where w:
      "writeEnable (traced drv) (tr, d) = (tr @ events_of [w], writeEnable drv d)"
    using writeEnable_traced [of drv tr d] by (elim exE conjE)
  let ?d1 = "writeEnable drv d"
  let ?f = "Frame (zip ?ts (fst (frame drv ?ts ?d1)))"
  let ?d2 = "snd (frame drv ?ts ?d1)"
  have s: "snd (frame (traced drv) ?ts (writeEnable (traced drv) (tr, d))) =
          (tr @ events_of [w, ?f], ?d2)"
    by (simp add: w frame_traced split_beta events_of_def)
  from assms have "waitUntilWriteComplete drv ?d2 = Some d'"
    by (simp add: write_cycle_def)
  from waitUntilWriteComplete_returns_traced [OF this, rule_format, of "tr @ events_of [w, ?f]"]
  obtain tr' where
    "waitUntilWriteComplete (traced drv) (tr @ events_of [w, ?f], ?d2) = Some (tr', d')"
    by (elim exE)
  then have "write_cycle (traced drv) a bs (tr, d) = Some (tr', d')"
    unfolding write_cycle_def s .
  then show ?thesis by (rule exI)
qed

lemma writeArray_loop_returns_traced:
  "writeArray_loop drv buf address offset remaining d = Some d' \<Longrightarrow>
     \<exists>tr'. writeArray_loop (traced drv) buf address offset remaining (tr, d) = Some (tr', d')"
proof (induction remaining arbitrary: address offset tr d rule: less_induct)
  case (less remaining)
  show ?case
  proof (cases "0 < remaining")
    case False
    with less.prems have "d' = d" by (subst (asm) writeArray_loop_cycle) simp
    with False have "writeArray_loop (traced drv) buf address offset remaining (tr, d) = Some (tr, d')"
      by (subst writeArray_loop_cycle) simp
    then show ?thesis by (rule exI)
  next
    case True
    define chunk where "chunk = min remaining (PAGE_SIZE - address mod PAGE_SIZE)"
    have chunk: "0 < chunk" "chunk \<le> remaining"
      using True by (simp_all add: chunk_def PAGE_SIZE_def)
    let ?bs = "map buf [offset..<offset + chunk]"
    from less.prems True obtain d1 where
      c: "write_cycle drv address ?bs d = Some d1"
      and r: "writeArray_loop drv buf (address + chunk) (offset + chunk) (remaining - chunk) d1 = Some d'"
      by (subst (asm) writeArray_loop_cycle)
         (auto simp: Let_def chunk_def [symmetric] split: option.splits)
    from write_cycle_returns_traced [OF c, of tr] obtain tr1 where
      c': "write_cycle (traced drv) address ?bs (tr, d) = Some (tr1, d1)"
      by (elim exE)
    have "remaining - chunk < remaining" using chunk True by simp
    from less.IH [OF this r, of tr1] obtain tr' where
      r': "writeArray_loop (traced drv) buf (address + chunk) (offset + chunk) (remaining - chunk)
             (tr1, d1) = Some (tr', d')"
      by (elim exE)
    have "writeArray_loop (traced drv) buf address offset remaining (tr, d) = Some (tr', d')"
      using True c' r'
      by (subst writeArray_loop_cycle) (simp add: Let_def chunk_def [symmetric])
    then show ?thesis by (rule exI)
  qed
qed

lemma writeArray_loop_chip:
  "idle c \<Longrightarrow>
     \<exists>c'. writeArray_loop chip_driver buf address offset remaining c = Some c' \<and> idle c' \<and>
       t_wc c' = t_wc c \<and>
       mem c' = foldl (\<lambda>m (a, bs). page_write m (a mod 512) bs) (mem c)
                  (page_chunks address (map buf [offset..<offset + remaining]))"
proof (induction remaining arbitrary: address offset c rule: less_induct)
  case (less remaining)
  show ?case
  proof (cases "0 < remaining")
    case False
    then have "writeArray_loop chip_driver buf address offset remaining c = Some c"
      by (subst writeArray_loop_cycle) simp
    with False less.prems show ?thesis by simp
  next
    case True
    define chunk where "chunk = min remaining (PAGE_SIZE - address mod PAGE_SIZE)"
    have chunk: "0 < chunk" "chunk \<le> remaining"
      using True by (simp_all add: chunk_def PAGE_SIZE_def)
    let ?bs = "map buf [offset..<offset + chunk]"
    have ne: "?bs \<noteq> []" using chunk(1) by simp
    from write_cycle_chip [OF less.prems ne, of address] obtain c1 where
      c1: "write_cycle chip_driver address ?bs c = Some c1" "idle c1"
        "mem c1 = page_write (mem c) (address mod 512) ?bs" "t_wc c1 = t_wc c"
      by (elim exE conjE)
    have "remaining - chunk < remaining" using chunk True by simp
    from less.IH [OF this c1(2), of "address + chunk" "offset + chunk"] obtain c' where
      c': "writeArray_loop chip_driver buf (address + chunk) (offset + chunk) (remaining - chunk) c1
             = Some c'" "idle c'" "t_wc c' = t_wc c1"
        "mem c' = foldl (\<lambda>m (a, bs). page_write m (a mod 512) bs) (mem c1)
           (page_chunks (address + chunk)
              (map buf [offset + chunk..<offset + chunk + (remaining - chunk)]))"
      by (elim exE conjE)
    have "writeArray_loop chip_driver buf address offset remaining c = Some c'"
      using True c1(1) c'(1)
      by (subst writeArray_loop_cycle) (simp add: Let_def chunk_def [symmetric])
    moreover have "mem c' = foldl (\<lambda>m (a, bs). page_write m (a mod 512) bs) (mem c)
                  (page_chunks address (map buf [offset..<offset + remaining]))"
      using c'(4) c1(3)
      by (simp add: page_chunks_range [OF True] Let_def chunk_def [symmetric])
    ultimately show ?thesis using c'(2,3) c1(4) by (intro exI [of _ c']) simp
  qed
qed

lemma writeArray_chip:
  assumes "idle c" "0 < len"
  shows "\<exists>tr c' itss.
       writeArray (traced chip_driver) address (Some buf) len ([], c) = Some (tr, c') \<and>
       writeArray chip_driver address (Some buf) len c = Some c' \<and> idle c' \<and>
       mem c' = foldl (\<lambda>m (a, bs). page_write m (a mod 512) bs) (mem c)
                  (page_chunks address (map buf [0..<len])) \<and>
       decode tr = Some (concat itss) \<and>
       list_all2 (\<lambda>(a, bs) its. page_write_items a bs its)
         (page_chunks address (map buf [0..<len])) itss"
proof -
  from writeArray_loop_chip [OF assms(1), of buf address 0 len] obtain c' where
    c': "writeArray_loop chip_driver buf address 0 len c = Some c'" "idle c'"
      "mem c' = foldl (\<lambda>m (a, bs). page_write m (a mod 512) bs) (mem c)
                  (page_chunks address (map buf [0..<0 + len]))"
    by (elim exE conjE)
  from writeArray_loop_returns_traced [OF c'(1), of "[]"] obtain tr where
    tr: "writeArray_loop (traced chip_driver) buf address 0 len ([], c) = Some (tr, c')"
    by (elim exE)
  have run: "writeArray (traced chip_driver) address (Some buf) len ([], c) = Some (tr, c')"
    using tr assms(2) by (simp add: writeArray_def)
  from writeArray_traced [OF assms(2) run] obtain itss where
    itss: "decode tr = Some (concat itss)"
       "list_all2 (\<lambda>(a, bs) its. page_write_items a bs its)
         (page_chunks address (map buf [0..<len])) itss"
    by (elim exE conjE)
  have plain: "writeArray chip_driver address (Some buf) len c = Some c'"
    using c'(1) assms(2) by (simp add: writeArray_def)
  from c'(3) have m: "mem c' = foldl (\<lambda>m (a, bs). page_write m (a mod 512) bs) (mem c)
                  (page_chunks address (map buf [0..<len]))"
    by (simp only: add_0)
  from run plain c'(2) m itss show ?thesis
    by (intro exI [of _ tr] exI [of _ c'] exI [of _ itss] conjI)
qed

lemma writeArray_example:
  "map_option (\<lambda>(tr, c). (map_option sent (decode tr), map (mem c) [10..<30]))
     (writeArray (traced chip_driver) 10 (Some of_nat) 20 ([], fresh_chip 5)) =
   Some (Some [[0x06], [0x02, 0, 10, 0, 1, 2, 3, 4, 5], [0x05, 0xFF], [0x05, 0xFF],
               [0x06], [0x02, 0, 16, 6, 7, 8, 9, 10, 11, 12, 13, 14, 15, 16, 17, 18, 19],
               [0x05, 0xFF], [0x05, 0xFF]],
         [0, 1, 2, 3, 4, 5, 6, 7, 8, 9, 10, 11, 12, 13, 14, 15, 16, 17, 18, 19])"
  by code_simp

lemma writeArray_returns_traced:
  assumes "writeArray drv address (Some buf) len d = Some d'"
  shows "\<exists>tr. writeArray (traced drv) address (Some buf) len ([], d) = Some (tr, d')"
proof (cases "len = 0")
  case True
  with assms have "writeArray (traced drv) address (Some buf) len ([], d) = Some ([], d')"
    by (simp add: writeArray_def)
  then show ?thesis by (rule exI)
next
  case False
  with assms have "writeArray_loop drv buf address 0 len d = Some d'"
    by (simp add: writeArray_def)
  from writeArray_loop_returns_traced [OF this, of "[]"] obtain tr where
    "writeArray_loop (traced drv) buf address 0 len ([], d) = Some (tr, d')"
    by (elim exE)
  with False have "writeArray (traced drv) address (Some buf) len ([], d) = Some (tr, d')"
    by (simp add: writeArray_def)
  then show ?thesis by (rule exI)
qed

lemma writeArray_example_high:
  "map_option (\<lambda>(tr, c). (map_option sent (decode tr), map (mem c) [300..<302]))
     (writeArray (traced chip_driver) 300 (Some (\<lambda>i. 0xA0 + of_nat i)) 2 ([], fresh_chip 5)) =
   Some (Some [[0x06], [0x02, 1, 44, 0xA0, 0xA1], [0x05, 0xFF], [0x05, 0xFF]], [0xA0, 0xA1])"
  by code_simp

text \<open>
  C1.  \<open>writeArray\<close> writes chunk after chunk of \<open>page_chunks\<close>: the next chunk is the first
  \<open>min(remaining, 16 - address mod 16)\<close> bytes, at the current address, and address and
  offset move on by its length.  For every driver, start address and buffer of
  \<open>len > 0\<close> bytes, the log of a run that returns is, for each chunk in turn, one
  write-enable frame (the byte 0x06 alone), one WRITE frame (0x02, the address bytes
  \<open>a div 256 mod 256\<close> and \<open>a mod 256\<close>, then the chunk's bytes) closed by the release of
  chip select, and the log of one wait; and the run with the log returns whenever the
  run without it does, in the same driver state.  On the chip at rest the run always
  returns, leaves the chip at rest, and the memory is that of one page write per chunk.
  No chunk is empty or crosses a 16-byte page boundary, the chunks put every byte at its
  own address in order, and 20 bytes at address 10 are the two chunks of 6 bytes at 10
  and 14 bytes at 16: on a fresh chip the frames sent are exactly the eight listed, and
  the bytes land at 10 to 29.  Two bytes at address 300 go out with the address bytes 1
  and 44.
\<close>

theorem writeArray_page_chunks:
  "(0 < len \<and> writeArray (traced drv) address (Some buf) len ([], d) = Some (tr, d') \<longrightarrow>
      (\<exists>itss. decode tr = Some (concat itss) \<and>
         list_all2 (\<lambda>(a, bs) its. page_write_items a bs its)
           (page_chunks address (map buf [0..<len])) itss))
   \<and> (writeArray drv address (Some buf) len d = Some d' \<longrightarrow>
        (\<exists>tr. writeArray (traced drv) address (Some buf) len ([], d) = Some (tr, d')))
   \<and> (0 < len \<and> idle c \<longrightarrow>
        (\<exists>tr c' itss.
           writeArray (traced chip_driver) address (Some buf) len ([], c) = Some (tr, c') \<and>
           writeArray chip_driver address (Some buf) len c = Some c' \<and> idle c' \<and>
           mem c' = foldl (\<lambda>m (a, bs). page_write m (a mod 512) bs) (mem c)
                      (page_chunks address (map buf [0..<len])) \<and>
           decode tr = Some (concat itss) \<and>
           list_all2 (\<lambda>(a, bs) its. page_write_items a bs its)
             (page_chunks address (map buf [0..<len])) itss))
   \<and> (\<forall>(a, bs) \<in> set (page_chunks address bytes).
         bs \<noteq> [] \<and> a div 16 = (a + length bs - 1) div 16)
   \<and> concat (map (\<lambda>(a, bs). zip [a..<a + length bs] bs) (page_chunks address bytes)) =
       zip [address..<address + length bytes] bytes
   \<and> (length bytes = 20 \<longrightarrow> page_chunks 10 bytes = [(10, take 6 bytes), (16, drop 6 bytes)])
   \<and> map_option (\<lambda>(tr, c). (map_option sent (decode tr), map (mem c) [10..<30]))
       (writeArray (traced chip_driver) 10 (Some of_nat) 20 ([], fresh_chip 5)) =
     Some (Some [[0x06], [0x02, 0, 10, 0, 1, 2, 3, 4, 5], [0x05, 0xFF], [0x05, 0xFF],
                 [0x06], [0x02, 0, 16, 6, 7, 8, 9, 10, 11, 12, 13, 14, 15, 16, 17, 18, 19],
                 [0x05, 0xFF], [0x05, 0xFF]],
           [0, 1, 2, 3, 4, 5, 6, 7, 8, 9, 10, 11, 12, 13, 14, 15, 16, 17, 18, 19])
   \<and> map_option (\<lambda>(tr, c). (map_option sent (decode tr), map (mem c) [300..<302]))
       (writeArray (traced chip_driver) 300 (Some (\<lambda>i. 0xA0 + of_nat i)) 2 ([], fresh_chip 5)) =
     Some (Some [[0x06], [0x02, 1, 44, 0xA0, 0xA1], [0x05, 0xFF], [0x05, 0xFF]], [0xA0, 0xA1])"
proof (intro conjI impI)
  assume "0 < len \<and> writeArray (traced drv) address (Some buf) len ([], d) = Some (tr, d')"
  then have "0 < len" "writeArray (traced drv) address (Some buf) len ([], d) = Some (tr, d')"
    by simp_all
  then show "\<exists>itss. decode tr = Some (concat itss) \<and>
         list_all2 (\<lambda>(a, bs) its. page_write_items a bs its)
           (page_chunks address (map buf [0..<len])) itss"
    by (rule writeArray_traced)
next
  assume "writeArray drv address (Some buf) len d = Some d'"
  then show "\<exists>tr. writeArray (traced drv) address (Some buf) len ([], d) = Some (tr, d')"
    by (rule writeArray_returns_traced)
next
  assume "0 < len \<and> idle c"
  then have "idle c" "0 < len" by simp_all
  then show "\<exists>tr c' itss.
           writeArray (traced chip_driver) address (Some buf) len ([], c) = Some (tr, c') \<and>
           writeArray chip_driver address (Some buf) len c = Some c' \<and> idle c' \<and>
           mem c' = foldl (\<lambda>m (a, bs). page_write m (a mod 512) bs) (mem c)
                      (page_chunks address (map buf [0..<len])) \<and>
           decode tr = Some (concat itss) \<and>
           list_all2 (\<lambda>(a, bs) its. page_write_items a bs its)
             (page_chunks address (map buf [0..<len])) itss"
    by (rule writeArray_chip)
next
  show "\<forall>(a, bs) \<in> set (page_chunks address bytes).
         bs \<noteq> [] \<and> a div 16 = (a + length bs - 1) div 16"
  proof (intro ballI)
    fix x assume x: "x \<in> set (page_chunks address bytes)"
    obtain a bs where p: "x = (a, bs)" by (cases x)
    from page_chunks_within [OF x [unfolded p]]
    show "case x of (a, bs) \<Rightarrow> bs \<noteq> [] \<and> a div 16 = (a + length bs - 1) div 16"
      by (simp add: p)
  qed
next
  show "concat (map (\<lambda>(a, bs). zip [a..<a + length bs] bs) (page_chunks address bytes)) =
       zip [address..<address + length bytes] bytes"
    by (rule page_chunks_cover)
next
  assume "length bytes = 20"
  then show "page_chunks 10 bytes = [(10, take 6 bytes), (16, drop 6 bytes)]"
    by (rule page_chunks_example)
next
  show "map_option (\<lambda>(tr, c). (map_option sent (decode tr), map (mem c) [10..<30]))
       (writeArray (traced chip_driver) 10 (Some of_nat) 20 ([], fresh_chip 5)) =
     Some (Some [[0x06], [0x02, 0, 10, 0, 1, 2, 3, 4, 5], [0x05, 0xFF], [0x05, 0xFF],
                 [0x06], [0x02, 0, 16, 6, 7, 8, 9, 10, 11, 12, 13, 14, 15, 16, 17, 18, 19],
                 [0x05, 0xFF], [0x05, 0xFF]],
           [0, 1, 2, 3, 4, 5, 6, 7, 8, 9, 10, 11, 12, 13, 14, 15, 16, 17, 18, 19])"
    by (rule writeArray_example)
next
  show "map_option (\<lambda>(tr, c). (map_option sent (decode tr), map (mem c) [300..<302]))
       (writeArray (traced chip_driver) 300 (Some (\<lambda>i. 0xA0 + of_nat i)) 2 ([], fresh_chip 5)) =
     Some (Some [[0x06], [0x02, 1, 44, 0xA0, 0xA1], [0x05, 0xFF], [0x05, 0xFF]], [0xA0, 0xA1])"
    by (rule writeArray_example_high)
qed

text \<open>
  The run of the example on the chip: 20 bytes at address 10, a write cycle of 5
  microseconds.
\<close>

theorem writeArray_page_chunks_witness:
  "\<exists>tr c' itss.
     writeArray (traced chip_driver) 10 (Some of_nat) 20 ([], fresh_chip 5) = Some (tr, c')
     \<and> writeArray chip_driver 10 (Some of_nat) 20 (fresh_chip 5) = Some c'
     \<and> idle c'
     \<and> decode tr = Some (concat itss)
     \<and> list_all2 (\<lambda>(a, bs) its. page_write_items a bs its)
          [(10, map of_nat [0..<6]), (16, map of_nat [6..<20])] itss"
proof -
  have rest: "0 < (20::nat) \<and> idle (fresh_chip 5)" by (simp add: idle_def fresh_chip_def)
  note total = writeArray_page_chunks [where len = 20 and address = 10 and buf = of_nat
      and c = "fresh_chip 5" and bytes = "map of_nat [0..<20]"]
  from total [THEN conjunct2, THEN conjunct2, THEN conjunct1, rule_format, OF rest]
  obtain tr c' where run:
      "writeArray (traced chip_driver) 10 (Some of_nat) 20 ([], fresh_chip 5) = Some (tr, c')"
      "writeArray chip_driver 10 (Some of_nat) 20 (fresh_chip 5) = Some c'" "idle c'"
    by (elim exE conjE)
  note inst = writeArray_page_chunks [where len = 20 and drv = chip_driver and address = 10
      and buf = of_nat and d = "fresh_chip 5" and tr = tr and d' = c' and c = "fresh_chip 5"
      and bytes = "map of_nat [0..<20]"]
  have chunks: "page_chunks 10 (map of_nat [0..<20] :: byte list) =
      [(10, map of_nat [0..<6]), (16, map of_nat [6..<20])]"
    using inst [THEN conjunct2, THEN conjunct2, THEN conjunct2, THEN conjunct2, THEN conjunct2,
      THEN conjunct1]
    by (simp add: take_map drop_map)
  have traced: "writeArray (traced chip_driver) 10 (Some of_nat) 20 ([], fresh_chip 5) = Some (tr, c')"
    using inst [THEN conjunct2, THEN conjunct1, rule_format, OF run(2)] run(1) by simp
  from inst [THEN conjunct1, rule_format, OF conjI [OF conjunct1 [OF rest] traced]]
  obtain itss where
    "decode tr = Some (concat itss)"
    "list_all2 (\<lambda>(a, bs) its. page_write_items a bs its)
       (page_chunks 10 (map of_nat [0..<20])) itss"
    by (elim exE conjE)
  with run chunks show ?thesis by (intro exI [of _ tr] exI [of _ c'] exI [of _ itss]) simp
qed

section \<open>Bits of the memory\<close>

lemma pow_mask: "(2 ^ n - 1 :: u32) = mask n"
  by (simp add: mask_eq_exp_minus_1)

lemma bit_byte_mask:
  "bit (byte_mask s c) i \<longleftrightarrow> i < 8 \<and> unat s \<le> i \<and> i - unat s < unat c"
  by (auto simp: byte_mask_def pow_mask bit_simps)

lemma bit_cut_out:
  "bit (cut_out b s c) i \<longleftrightarrow> bit b (unat s + i) \<and> i < unat c"
  by (auto simp: cut_out_def bit_byte_mask bit_simps dest: bit_imp_le_length)

lemma bit_splice:
  "bit (splice b s c w) i \<longleftrightarrow>
     i < 8 \<and> (if unat s \<le> i \<and> i - unat s < unat c then bit w (i - unat s) else bit b i)"
  by (auto simp: splice_def bit_byte_mask bit_simps dest: bit_imp_le_length)

lemma div_8_next: "(q + 8) div 8 = Suc (q div (8 :: nat))"
  by simp

lemma bit_at_next: "bit_at m (a + 1) q = bit_at m a (q + 8)"
  by (simp add: bit_at_def div_8_next del: div_add_self2)

lemma bit_at_first: "p < 8 \<Longrightarrow> bit_at m a p = bit (m (a mod 512)) p"
  by (simp add: bit_at_def)

lemma next_bytes_differ:
  assumes "k < 511"
  shows "(a + 1 + k) mod 512 \<noteq> a mod (512 :: nat)"
proof -
  define r where "r = a mod 512"
  have r: "r < 512" by (simp add: r_def)
  have "(a + 1 + k) mod 512 = (r + (1 + k)) mod 512"
    unfolding r_def by (simp only: add.assoc mod_add_left_eq)
  also have "\<dots> \<noteq> r"
  proof (cases "r + (1 + k) < 512")
    case True
    then show ?thesis by simp
  next
    case False
    then have "(r + (1 + k)) mod 512 = (r + (1 + k) - 512) mod 512"
      by (simp add: le_mod_geq)
    also have "\<dots> = r + (1 + k) - 512" using r assms by simp
    finally show ?thesis using assms False by simp
  qed
  finally show ?thesis by (simp add: r_def)
qed

lemma in_span_next:
  assumes "in_span (a + 1) 0 len x i"
  shows "in_span a 8 len x i"
proof -
  from assms obtain q where q: "q < len" "x = (a + 1 + q div 8) mod 512" "i = q mod 8"
    by (auto simp: in_span_def)
  have "q + 8 \<in> {8..<8 + len}" using q(1) by simp
  moreover have "x = (a + (q + 8) div 8) mod 512" using q(2) by (simp add: div_8_next)
  moreover have "i = (q + 8) mod 8" using q(3) by simp
  ultimately show ?thesis unfolding in_span_def by blast
qed

lemma in_span_first:
  assumes "len \<le> 32"
  shows "\<not> in_span (a + 1) 0 len (a mod 512) i"
proof
  assume "in_span (a + 1) 0 len (a mod 512) i"
  then obtain q where q: "q < len" "a mod 512 = (a + 1 + q div 8) mod 512"
    by (auto simp: in_span_def)
  have "q div 8 < 511" using q(1) assms by simp
  from next_bytes_differ [OF this, of a] q(2) show False by simp
qed

lemma in_span_mono:
  "in_span a s' len' x i \<Longrightarrow> s \<le> s' \<Longrightarrow> s' + len' \<le> s + len \<Longrightarrow> in_span a s len x i"
  by (auto simp: in_span_def)

lemma in_span_here: "s \<le> i \<Longrightarrow> i < s + len \<Longrightarrow> i < 8 \<Longrightarrow> in_span a s len (a mod 512) i"
  unfolding in_span_def by (rule bexI [of _ i]) simp_all

lemma byte_offsets_differ:
  assumes "k < 512" "k' < 512" "(a + k) mod 512 = (a + k') mod (512 :: nat)"
  shows "k = k'"
proof (rule ccontr)
  assume "k \<noteq> k'"
  then consider "k < k'" | "k' < k" by linarith
  then show False
  proof cases
    case 1
    define d where "d = k' - k - 1"
    have d: "d < 511" "a + k' = (a + k) + 1 + d" using 1 assms(2) by (simp_all add: d_def)
    from next_bytes_differ [OF d(1), of "a + k"] assms(3) show False by (simp only: d(2))
  next
    case 2
    define d where "d = k - k' - 1"
    have d: "d < 511" "a + k = (a + k') + 1 + d" using 2 assms(1) by (simp_all add: d_def)
    from next_bytes_differ [OF d(1), of "a + k'"] assms(3) show False by (simp only: d(2))
  qed
qed

lemma not_in_span_low:
  assumes "i < s" "s + len \<le> 40"
  shows "\<not> in_span a s len (a mod 512) i"
proof
  assume "in_span a s len (a mod 512) i"
  then obtain p where p: "s \<le> p" "p < s + len" "a mod 512 = (a + p div 8) mod 512" "i = p mod 8"
    by (auto simp: in_span_def)
  have "p div 8 < 512" using p(2) assms(2) by simp
  from byte_offsets_differ [OF _ this, of 0 a] p(3) have "p div 8 = 0" by simp
  then have "p mod 8 = p" by simp
  with p(1,4) assms(1) show False by simp
qed

lemma not_in_span_high:
  assumes "(s + len - 1) mod 8 < i" "s + len \<le> 40"
  shows "\<not> in_span a s len ((a + (s + len - 1) div 8) mod 512) i"
proof
  assume "in_span a s len ((a + (s + len - 1) div 8) mod 512) i"
  then obtain p where p: "s \<le> p" "p < s + len"
      "(a + (s + len - 1) div 8) mod 512 = (a + p div 8) mod 512" "i = p mod 8"
    by (auto simp: in_span_def)
  define e where "e = s + len - 1"
  have e: "p \<le> e" "e < 40" using p(2) assms(2) by (simp_all add: e_def)
  have "p div 8 < 512" "e div 8 < 512" using e by simp_all
  from byte_offsets_differ [OF this(2) this(1), of a] p(3) have d: "e div 8 = p div 8"
    by (simp add: e_def)
  have "p = 8 * (p div 8) + p mod 8" "e = 8 * (e div 8) + e mod 8" by simp_all
  with d e(1) have "p mod 8 \<le> e mod 8" by linarith
  with assms(1) p(4) show False by (simp add: e_def)
qed

lemma not_in_span_other:
  assumes "\<forall>k \<le> (s + len - 1) div 8. x \<noteq> (a + k) mod 512"
  shows "\<not> in_span a s len x i"
proof
  assume "in_span a s len x i"
  then obtain p where p: "s \<le> p" "p < s + len" "x = (a + p div 8) mod 512"
    by (auto simp: in_span_def)
  have "p \<le> s + len - 1" using p(2) by simp
  then have "p div 8 \<le> (s + len - 1) div 8" by (rule div_le_mono)
  with assms p(3) show False by blast
qed

section \<open>The bit loops on the chip\<close>

text \<open>
  One round of \<open>writeBits\<close> replaces the bits of its byte from \<open>start_bit\<close> on by the next
  bits of the value and leaves the others; one round of \<open>readBits\<close> adds these bits to
  the result.  A round that is not the last ends at the top of its byte, so the next
  starts at bit 0 of the next byte.
\<close>

lemma round_facts:
  fixes off n b :: u32
  assumes "off \<le> 7" "n \<le> 32" "b < n"
  shows "unat (bit_start off b) \<le> 7"
    and "unat (bit_count off n b) = min (8 - unat (bit_start off b)) (unat n - unat b)"
    and "unat (b + bit_count off n b) = unat b + unat (bit_count off n b)"
    and "\<not> 32 \<le> bit_start off b" and "\<not> 32 \<le> bit_count off n b"
    and "bit_start off (b + bit_count off n b) = 0"
    and "0 < unat (bit_count off n b)"
    and "unat b < unat n" and "unat n \<le> 32"
proof -
  note st = bits_step [OF assms]
  have c: "bit_count off n b = min (8 - (if b = 0 then off else 0)) (n - b)"
    by (simp add: bit_count_def bit_start_def)
  have s: "bit_start off b = (if b = 0 then off else 0)" by (simp add: bit_start_def)
  show "unat (bit_start off b) \<le> 7" unfolding s by (rule st(1))
  show "unat (bit_count off n b) = min (8 - unat (bit_start off b)) (unat n - unat b)"
    unfolding s c by (rule st(2))
  show "unat (b + bit_count off n b) = unat b + unat (bit_count off n b)"
    unfolding c by (rule st(3))
  show "\<not> 32 \<le> bit_start off b" unfolding s by (rule st(4))
  show "\<not> 32 \<le> bit_count off n b" unfolding c by (rule st(5))
  show "bit_start off (b + bit_count off n b) = 0"
    using st(7) unfolding c by (simp add: bit_start_def)
  show "0 < unat (bit_count off n b)" unfolding c by (rule st(8))
  show "unat b < unat n" using assms(3) by (simp add: word_less_nat_alt)
  show "unat n \<le> 32" using assms(2) by (simp add: word_le_nat_alt)
qed

lemma writeBits_loop_chip:
  fixes off n bw :: u32
  assumes "off \<le> 7" "n \<le> 32" "idle c"
  shows "\<exists>c'. writeBits_loop chip_driver off n v bw ad c = Some (Inr c') \<and> idle c' \<and>
     (\<forall>j. unat bw \<le> j \<and> j < unat n \<longrightarrow>
          bit_at (mem c') ad (unat (bit_start off bw) + (j - unat bw)) = bit v j) \<and>
     (\<forall>x i. \<not> in_span ad (unat (bit_start off bw)) (unat n - unat bw) x i \<longrightarrow>
          bit (mem c' x) i = bit (mem c x) i)"
  using \<open>idle c\<close>
proof (induction "unat n - unat bw" arbitrary: bw ad c rule: less_induct)
  case less
  show ?case
  proof (cases "bw < n")
    case False
    then have "writeBits_loop chip_driver off n v bw ad c = Some (Inr c)"
      by (subst writeBits_loop_unfold) simp
    moreover from False have "\<not> unat bw < unat n" by (simp add: word_less_nat_alt)
    ultimately show ?thesis using less.prems by (intro exI [of _ c]) auto
  next
    case True
    note rf = round_facts [OF assms(1,2) True]
    define s where "s = bit_start off bw"
    define cnt where "cnt = bit_count off n bw"
    define B where "B = unat bw"
    define N where "N = unat n"
    define S where "S = unat s"
    define C where "C = unat cnt"
    have S: "S \<le> 7" using rf(1) by (simp add: S_def s_def)
    have C: "C = min (8 - S) (N - B)" using rf(2) by (simp add: C_def cnt_def S_def s_def N_def B_def)
    have BC: "unat (bw + cnt) = B + C" using rf(3) by (simp add: C_def cnt_def B_def)
    have Cpos: "0 < C" using rf(7) by (simp add: C_def cnt_def)
    have BN: "B < N" using rf(8) by (simp add: B_def N_def)
    have N32: "N \<le> 32" using rf(9) by (simp add: N_def)
    have s0: "bit_start off (bw + cnt) = 0" using rf(6) by (simp add: cnt_def)
    let ?c1 = "snd (readByte chip_driver ad c)"
    let ?old = "fst (readByte chip_driver ad c)"
    from readByte_chip [OF less.prems, of ad]
    have old: "?old = mem c (ad mod 512)" and i1: "idle ?c1" and m1: "mem ?c1 = mem c"
      by (simp_all add: same_store_def)
    define new where "new = splice ?old s cnt (drop_bit B v)"
    from writeByte_chip [OF i1, of ad new] obtain c2 where
      c2: "writeByte chip_driver ad new ?c1 = Some c2" "idle c2"
        "mem c2 = (mem ?c1)(ad mod 512 := new)"
      by (elim exE conjE)
    have m: "unat n - unat (bw + cnt) < unat n - unat bw"
      using BC Cpos BN by (simp add: B_def N_def)
    from less.hyps [OF m c2(2), of "ad + 1"] obtain c' where
      c': "writeBits_loop chip_driver off n v (bw + cnt) (ad + 1) c2 = Some (Inr c')" "idle c'"
        "\<forall>j. B + C \<le> j \<and> j < N \<longrightarrow> bit_at (mem c') (ad + 1) (j - (B + C)) = bit v j"
        "\<forall>x i. \<not> in_span (ad + 1) 0 (N - (B + C)) x i \<longrightarrow> bit (mem c' x) i = bit (mem c2 x) i"
      unfolding s0 BC N_def [symmetric] by (simp only: unat_0 add_0) (elim exE conjE)
    have run: "writeBits_loop chip_driver off n v bw ad c = Some (Inr c')"
      using True rf(4) rf(5) c2(1) c'(1)
      by (subst writeBits_loop_unfold)
         (simp add: Let_def s_def [symmetric] cnt_def [symmetric] B_def [symmetric]
            new_def [symmetric])
    have bit_new: "bit new i \<longleftrightarrow> i < 8 \<and> (if S \<le> i \<and> i - S < C then bit v (B + (i - S))
         else bit (mem c (ad mod 512)) i)" for i
      by (simp add: new_def bit_splice S_def [symmetric] C_def [symmetric] old bit_drop_bit_eq)
    have here: "bit (mem c' (ad mod 512)) i = bit new i" for i
    proof -
      have "N - (B + C) \<le> 32" using N32 by simp
      from in_span_first [OF this, of ad i] c'(4)
      have "bit (mem c' (ad mod 512)) i = bit (mem c2 (ad mod 512)) i" by blast
      then show ?thesis by (simp add: c2(3))
    qed
    have full: "C = 8 - S" if "B + C < N"
      using that C by (simp add: min_def split: if_splits)
    have a: "\<forall>j. B \<le> j \<and> j < N \<longrightarrow> bit_at (mem c') ad (S + (j - B)) = bit v j"
    proof (intro allI impI, elim conjE)
      fix j assume j: "B \<le> j" "j < N"
      show "bit_at (mem c') ad (S + (j - B)) = bit v j"
      proof (cases "j < B + C")
        case True
        have p: "S + (j - B) < 8" using True C j by (simp add: min_def split: if_splits)
        have "bit_at (mem c') ad (S + (j - B)) = bit new (S + (j - B))"
          by (simp only: bit_at_first [OF p] here)
        also have "\<dots> = bit v j"
        proof -
          have "S \<le> S + (j - B)" "S + (j - B) - S < C" "B + (S + (j - B) - S) = j"
            using True j by simp_all
          with p show ?thesis by (simp only: bit_new if_True simp_thms)
        qed
        finally show ?thesis .
      next
        case False
        then have "B + C < N" using j by simp
        from full [OF this] have e: "S + (j - B) = (j - (B + C)) + 8" using False S by simp
        from c'(3) False j have "bit_at (mem c') (ad + 1) (j - (B + C)) = bit v j" by simp
        then show ?thesis by (simp only: e bit_at_next)
      qed
    qed
    have b: "\<forall>x i. \<not> in_span ad S (N - B) x i \<longrightarrow> bit (mem c' x) i = bit (mem c x) i"
    proof (intro allI impI)
      fix x i assume out: "\<not> in_span ad S (N - B) x i"
      have "\<not> in_span (ad + 1) 0 (N - (B + C)) x i"
      proof
        assume in1: "in_span (ad + 1) 0 (N - (B + C)) x i"
        then have "0 < N - (B + C)" by (auto simp: in_span_def)
        then have "B + C < N" by simp
        from full [OF this] have "S \<le> 8" "8 + (N - (B + C)) \<le> S + (N - B)"
          using S \<open>B + C < N\<close> by simp_all
        from in_span_mono [OF in_span_next [OF in1] this] out show False by simp
      qed
      with c'(4) have e: "bit (mem c' x) i = bit (mem c2 x) i" by blast
      show "bit (mem c' x) i = bit (mem c x) i"
      proof (cases "x = ad mod 512")
        case False
        then show ?thesis using e by (simp add: c2(3) m1)
      next
        case True
        have "\<not> (S \<le> i \<and> i < S + C \<and> i < 8)"
        proof
          assume h: "S \<le> i \<and> i < S + C \<and> i < 8"
          have "S + C \<le> S + (N - B)" using C by simp
          with h have "in_span ad S (N - B) (ad mod 512) i"
            by (intro in_span_here) simp_all
          with out True show False by simp
        qed
        then have "bit new i = bit (mem c (ad mod 512)) i"
          by (auto simp: bit_new dest: bit_imp_le_length)
        then show ?thesis using e True by (simp add: c2(3))
      qed
    qed
    from run c'(2) a b show ?thesis
      unfolding s_def [symmetric] S_def [symmetric] B_def [symmetric] N_def [symmetric]
      by (intro exI [of _ c'] conjI)
  qed
qed

lemma readBits_loop_chip:
  fixes off n br :: u32
  assumes "off \<le> 7" "n \<le> 32" "idle c"
  shows "\<exists>r c'. readBits_loop chip_driver off n res br ad c = Some (Inr (r, c')) \<and> idle c' \<and>
     mem c' = mem c \<and>
     (\<forall>j. bit r j \<longleftrightarrow> bit res j \<or>
           (unat br \<le> j \<and> j < unat n \<and>
            bit_at (mem c) ad (unat (bit_start off br) + (j - unat br))))"
  using \<open>idle c\<close>
proof (induction "unat n - unat br" arbitrary: br ad c res rule: less_induct)
  case less
  show ?case
  proof (cases "br < n")
    case False
    then have "readBits_loop chip_driver off n res br ad c = Some (Inr (res, c))"
      by (subst readBits_loop_unfold) simp
    moreover from False have "\<not> unat br < unat n" by (simp add: word_less_nat_alt)
    ultimately show ?thesis using less.prems by (intro exI [of _ res] exI [of _ c]) auto
  next
    case True
    note rf = round_facts [OF assms(1,2) True]
    define s where "s = bit_start off br"
    define cnt where "cnt = bit_count off n br"
    define B where "B = unat br"
    define N where "N = unat n"
    define S where "S = unat s"
    define C where "C = unat cnt"
    have S: "S \<le> 7" using rf(1) by (simp add: S_def s_def)
    have C: "C = min (8 - S) (N - B)" using rf(2) by (simp add: C_def cnt_def S_def s_def N_def B_def)
    have BC: "unat (br + cnt) = B + C" using rf(3) by (simp add: C_def cnt_def B_def)
    have Cpos: "0 < C" using rf(7) by (simp add: C_def cnt_def)
    have BN: "B < N" using rf(8) by (simp add: B_def N_def)
    have N32: "N \<le> 32" using rf(9) by (simp add: N_def)
    have s0: "bit_start off (br + cnt) = 0" using rf(6) by (simp add: cnt_def)
    let ?c1 = "snd (readByte chip_driver ad c)"
    let ?old = "fst (readByte chip_driver ad c)"
    from readByte_chip [OF less.prems, of ad]
    have old: "?old = mem c (ad mod 512)" and i1: "idle ?c1" and m1: "mem ?c1 = mem c"
      by (simp_all add: same_store_def)
    define res' where "res' = res OR push_bit B (ucast (cut_out ?old s cnt) :: u32)"
    have m: "unat n - unat (br + cnt) < unat n - unat br"
      using BC Cpos BN by (simp add: B_def N_def)
    from less.hyps [OF m i1, of res' "ad + 1"] obtain r c' where
      c': "readBits_loop chip_driver off n res' (br + cnt) (ad + 1) ?c1 = Some (Inr (r, c'))"
        "idle c'" "mem c' = mem c"
        "\<forall>j. bit r j \<longleftrightarrow> bit res' j \<or>
            (B + C \<le> j \<and> j < N \<and> bit_at (mem c) (ad + 1) (j - (B + C)))"
      unfolding s0 BC N_def [symmetric] m1 by (simp only: unat_0 add_0) (elim exE conjE)
    have run: "readBits_loop chip_driver off n res br ad c = Some (Inr (r, c'))"
      using True rf(4) rf(5) c'(1)
      by (subst readBits_loop_unfold)
         (simp add: Let_def s_def [symmetric] cnt_def [symmetric] B_def [symmetric]
            res'_def [symmetric])
    have bit_res': "bit res' j \<longleftrightarrow> bit res j \<or>
        (B \<le> j \<and> j < 32 \<and> j - B < C \<and> bit (mem c (ad mod 512)) (S + (j - B)))" for j
      by (auto simp: res'_def bit_simps bit_cut_out old S_def C_def dest: bit_imp_le_length)
    have full: "C = 8 - S" if "B + C < N"
      using that C by (simp add: min_def split: if_splits)
    have a: "\<forall>j. bit r j \<longleftrightarrow> bit res j \<or> (B \<le> j \<and> j < N \<and> bit_at (mem c) ad (S + (j - B)))"
    proof
      fix j
      consider "j < B" | "B \<le> j" "j < B + C" | "B + C \<le> j" "j < N" | "B + C \<le> j" "N \<le> j"
        by linarith
      then show "bit r j \<longleftrightarrow> bit res j \<or> (B \<le> j \<and> j < N \<and> bit_at (mem c) ad (S + (j - B)))"
      proof cases
        case 1
        then show ?thesis using c'(4) by (simp add: bit_res')
      next
        case 2
        have p: "S + (j - B) < 8" using 2 C by (simp add: min_def split: if_splits)
        have "C \<le> N - B" using C by simp
        then have jn: "j < N" "j < 32" "j - B < C" using 2 N32 BN by linarith+
        have "bit r j \<longleftrightarrow> bit res' j" using c'(4) 2 by simp
        also have "\<dots> \<longleftrightarrow> bit res j \<or> bit (mem c (ad mod 512)) (S + (j - B))"
          using 2 jn by (simp add: bit_res')
        finally show ?thesis unfolding bit_at_first [OF p] using 2 jn by simp
      next
        case 3
        then have "B + C < N" by simp
        from full [OF this] have e: "S + (j - B) = (j - (B + C)) + 8" using 3 S by simp
        have "bit r j \<longleftrightarrow> bit res' j \<or> bit_at (mem c) (ad + 1) (j - (B + C))"
          using c'(4) 3 by simp
        also have "bit res' j \<longleftrightarrow> bit res j"
        proof -
          have "\<not> j - B < C" using 3 by linarith
          then show ?thesis by (simp add: bit_res')
        qed
        finally show ?thesis using 3 by (simp only: e bit_at_next) simp
      next
        case 4
        then have "\<not> j - B < C" "\<not> j < N" by linarith+
        then show ?thesis using c'(4) by (simp add: bit_res')
      qed
    qed
    from run c'(2,3) a show ?thesis
      unfolding s_def [symmetric] S_def [symmetric] B_def [symmetric] N_def [symmetric]
      by (intro exI [of _ r] exI [of _ c'] conjI)
  qed
qed

lemma writeBits_chip:
  fixes off n :: u32
  assumes "idle c" "off \<le> 7" "1 \<le> n" "n \<le> 32"
  shows "\<exists>c'. writeBits chip_driver a off n v c = Some (Inr c') \<and> idle c' \<and>
     (\<forall>j. j < unat n \<longrightarrow> bit_at (mem c') a (unat off + j) = bit v j) \<and>
     (\<forall>x i. \<not> in_span a (unat off) (unat n) x i \<longrightarrow> bit (mem c' x) i = bit (mem c x) i)"
proof -
  have n: "\<not> (n = 0 \<or> 32 < n)" using assms(3,4) by (auto simp: not_less)
  from writeBits_loop_chip [OF assms(2,4,1), of v 0 a]
  show ?thesis using n by (simp add: writeBits_def bit_start_def)
qed

lemma readBits_chip:
  fixes off n :: u32
  assumes "idle c" "off \<le> 7" "1 \<le> n" "n \<le> 32"
  shows "\<exists>r c'. readBits chip_driver a off n c = Some (Inr (r, c')) \<and> idle c' \<and> mem c' = mem c \<and>
     (\<forall>j. bit r j \<longleftrightarrow> j < unat n \<and> bit_at (mem c) a (unat off + j))"
proof -
  have n: "\<not> (n = 0 \<or> 32 < n)" using assms(3,4) by (auto simp: not_less)
  from readBits_loop_chip [OF assms(2,4,1), of 0 0 a]
  show ?thesis using n by (simp add: readBits_def bit_start_def)
qed

section \<open>Bit round trip\<close>

text \<open>
  C3.  On the chip at rest, for every address, every \<open>bitOffset\<close> in 0..7, every
  \<open>bitCount\<close> \<open>n\<close> in 1..32 and every 32-bit value: \<open>writeBits\<close> returns, and \<open>readBits\<close>
  with the same address, offset and count then returns the value with all but its low
  \<open>n\<close> bits cleared, \<open>value AND (2 ^ n - 1)\<close>.
\<close>

theorem writeBits_readBits_roundtrip:
  fixes off n v :: u32
  shows "idle c \<and> off \<le> 7 \<and> 1 \<le> n \<and> n \<le> 32 \<longrightarrow>
     (\<exists>c' c''. writeBits chip_driver a off n v c = Some (Inr c') \<and>
        readBits chip_driver a off n c' = Some (Inr (v AND (2 ^ unat n - 1), c'')))"
proof (intro impI, elim conjE)
  assume h: "idle c" "off \<le> 7" "1 \<le> n" "n \<le> 32"
  from writeBits_chip [OF h, of a v] obtain c' where
    c': "writeBits chip_driver a off n v c = Some (Inr c')" "idle c'"
      "\<forall>j. j < unat n \<longrightarrow> bit_at (mem c') a (unat off + j) = bit v j"
    by (elim exE conjE)
  from readBits_chip [OF c'(2) h(2,3,4), of a] obtain r c'' where
    r: "readBits chip_driver a off n c' = Some (Inr (r, c''))"
      "\<forall>j. bit r j \<longleftrightarrow> j < unat n \<and> bit_at (mem c') a (unat off + j)"
    by (elim exE conjE)
  have "r = v AND (2 ^ unat n - 1)"
  proof (rule bit_word_eqI)
    fix j assume "j < LENGTH(32)"
    then show "bit r j = bit (v AND (2 ^ unat n - 1)) j"
      using r(2) c'(3) by (auto simp: pow_mask bit_simps)
  qed
  with c'(1) r(1) show "\<exists>c' c''. writeBits chip_driver a off n v c = Some (Inr c') \<and>
        readBits chip_driver a off n c' = Some (Inr (v AND (2 ^ unat n - 1), c''))"
    by (intro exI [of _ c'] exI [of _ c'']) simp
qed

text \<open>Twelve bits of \<open>0xABCDE\<close> from bit 3 of the byte at address 5 of a fresh chip.\<close>

theorem writeBits_readBits_roundtrip_witness:
  "idle (fresh_chip 5) \<and> (3 :: u32) \<le> 7 \<and> (1 :: u32) \<le> 12 \<and> (12 :: u32) \<le> 32 \<and>
     (\<exists>c' c''. writeBits chip_driver 5 3 12 0xABCDE (fresh_chip 5) = Some (Inr c') \<and>
        readBits chip_driver 5 3 12 c' = Some (Inr (0xCDE, c'')))"
proof -
  have h: "idle (fresh_chip 5) \<and> (3 :: u32) \<le> 7 \<and> (1 :: u32) \<le> 12 \<and> (12 :: u32) \<le> 32"
    by (simp add: idle_def fresh_chip_def)
  have v: "(0xABCDE :: u32) AND (2 ^ unat (12 :: u32) - 1) = 0xCDE" by simp
  from writeBits_readBits_roundtrip [of "fresh_chip 5" 3 12 5 "0xABCDE", rule_format, OF h]
  show ?thesis unfolding v using h by simp
qed

section \<open>Bits outside the span\<close>

text \<open>
  C4.  On the chip at rest, for every address \<open>a\<close>, every \<open>bitOffset\<close> in 0..7, every
  \<open>bitCount\<close> \<open>n\<close> in 1..32 and every value: \<open>writeBits\<close> returns and every bit of the
  memory that is not one of the \<open>n\<close> bits from bit \<open>bitOffset\<close> of the byte at \<open>a\<close> on is as
  before.  In particular the bits below \<open>bitOffset\<close> in the first byte, the bits above
  the last written one in the last byte, and every other byte are as before.
\<close>

theorem writeBits_frame:
  fixes off n v :: u32
  shows "idle c \<and> off \<le> 7 \<and> 1 \<le> n \<and> n \<le> 32 \<longrightarrow>
     (\<exists>c'. writeBits chip_driver a off n v c = Some (Inr c') \<and>
        (\<forall>x i. \<not> in_span a (unat off) (unat n) x i \<longrightarrow> bit (mem c' x) i = bit (mem c x) i) \<and>
        (\<forall>i < unat off. bit (mem c' (a mod 512)) i = bit (mem c (a mod 512)) i) \<and>
        (\<forall>i. (unat off + unat n - 1) mod 8 < i \<longrightarrow>
           bit (mem c' ((a + (unat off + unat n - 1) div 8) mod 512)) i =
           bit (mem c ((a + (unat off + unat n - 1) div 8) mod 512)) i) \<and>
        (\<forall>x. (\<forall>k \<le> (unat off + unat n - 1) div 8. x \<noteq> (a + k) mod 512) \<longrightarrow>
           mem c' x = mem c x))"
proof (intro impI, elim conjE)
  assume h: "idle c" "off \<le> 7" "1 \<le> n" "n \<le> 32"
  have len: "unat off + unat n \<le> 40"
    using h(2,4) by (simp add: word_le_nat_alt)
  from writeBits_chip [OF h, of a v] obtain c' where
    c': "writeBits chip_driver a off n v c = Some (Inr c')"
      "\<forall>x i. \<not> in_span a (unat off) (unat n) x i \<longrightarrow> bit (mem c' x) i = bit (mem c x) i"
    by (elim exE conjE)
  have low: "\<forall>i < unat off. bit (mem c' (a mod 512)) i = bit (mem c (a mod 512)) i"
    using c'(2) not_in_span_low [OF _ len] by blast
  have high: "\<forall>i. (unat off + unat n - 1) mod 8 < i \<longrightarrow>
           bit (mem c' ((a + (unat off + unat n - 1) div 8) mod 512)) i =
           bit (mem c ((a + (unat off + unat n - 1) div 8) mod 512)) i"
    using c'(2) not_in_span_high [OF _ len] by blast
  have other: "\<forall>x. (\<forall>k \<le> (unat off + unat n - 1) div 8. x \<noteq> (a + k) mod 512) \<longrightarrow>
           mem c' x = mem c x"
  proof (intro allI impI)
    fix x assume x: "\<forall>k \<le> (unat off + unat n - 1) div 8. x \<noteq> (a + k) mod 512"
    show "mem c' x = mem c x"
    proof (rule bit_word_eqI)
      fix i
      from not_in_span_other [OF x, of i] c'(2)
      show "bit (mem c' x) i = bit (mem c x) i" by blast
    qed
  qed
  from c'(1) c'(2) low high other
  show "\<exists>c'. writeBits chip_driver a off n v c = Some (Inr c') \<and>
        (\<forall>x i. \<not> in_span a (unat off) (unat n) x i \<longrightarrow> bit (mem c' x) i = bit (mem c x) i) \<and>
        (\<forall>i < unat off. bit (mem c' (a mod 512)) i = bit (mem c (a mod 512)) i) \<and>
        (\<forall>i. (unat off + unat n - 1) mod 8 < i \<longrightarrow>
           bit (mem c' ((a + (unat off + unat n - 1) div 8) mod 512)) i =
           bit (mem c ((a + (unat off + unat n - 1) div 8) mod 512)) i) \<and>
        (\<forall>x. (\<forall>k \<le> (unat off + unat n - 1) div 8. x \<noteq> (a + k) mod 512) \<longrightarrow>
           mem c' x = mem c x)"
    by (intro exI [of _ c'] conjI)
qed

text \<open>
  Twelve zero bits from bit 3 of the byte at address 5 of a fresh chip, whose cells are
  all \<open>0xFF\<close>: bits 0 and 2 of the byte at 5, bit 7 of the byte at 6 and the bytes at 4 and
  7 keep their ones.
\<close>

theorem writeBits_frame_witness:
  "\<exists>c'. writeBits chip_driver 5 3 12 0 (fresh_chip 5) = Some (Inr c') \<and>
     bit (mem c' 5) 0 \<and> bit (mem c' 5) 2 \<and> bit (mem c' 6) 7 \<and>
     mem c' 4 = 0xFF \<and> mem c' 7 = 0xFF"
proof -
  have h: "idle (fresh_chip 5) \<and> (3 :: u32) \<le> 7 \<and> (1 :: u32) \<le> 12 \<and> (12 :: u32) \<le> 32"
    by (simp add: idle_def fresh_chip_def)
  have m: "mem (fresh_chip 5) x = 0xFF" for x by (simp add: fresh_chip_def)
  from writeBits_frame [of "fresh_chip 5" 3 12 5 0, rule_format, OF h]
  obtain c' where
    c': "writeBits chip_driver 5 3 12 0 (fresh_chip 5) = Some (Inr c')"
      "\<forall>i < unat (3 :: u32). bit (mem c' (5 mod 512)) i = bit (mem (fresh_chip 5) (5 mod 512)) i"
      "\<forall>i. (unat (3 :: u32) + unat (12 :: u32) - 1) mod 8 < i \<longrightarrow>
           bit (mem c' ((5 + (unat (3 :: u32) + unat (12 :: u32) - 1) div 8) mod 512)) i =
           bit (mem (fresh_chip 5) ((5 + (unat (3 :: u32) + unat (12 :: u32) - 1) div 8) mod 512)) i"
      "\<forall>x. (\<forall>k \<le> (unat (3 :: u32) + unat (12 :: u32) - 1) div 8. x \<noteq> (5 + k) mod 512) \<longrightarrow>
           mem c' x = mem (fresh_chip 5) x"
    by (elim exE conjE)
  have ones: "bit (0xFF :: byte) 0" "bit (0xFF :: byte) 2" "bit (0xFF :: byte) 7"
    by simp_all
  from c'(2) [rule_format, of 0] c'(2) [rule_format, of 2] ones
  have "bit (mem c' 5) 0" "bit (mem c' 5) 2" by (simp_all add: m)
  moreover from c'(3) [rule_format, of 7] ones have "bit (mem c' 6) 7" by (simp add: m)
  moreover have k: "k \<le> 1 \<Longrightarrow> (4 :: nat) \<noteq> (5 + k) mod 512 \<and> (7 :: nat) \<noteq> (5 + k) mod 512" for k
    by (cases k) simp_all
  from c'(4) have o: "(\<forall>k \<le> 1. x \<noteq> (5 + k) mod 512) \<longrightarrow> mem c' x = 0xFF" for x
    by (simp add: m)
  have "mem c' 4 = 0xFF" "mem c' 7 = 0xFF" using o [of 4] o [of 7] k by blast+
  ultimately show ?thesis using c'(1) by (intro exI [of _ c']) simp
qed

end
